theory Spec2Isabelle
  imports Complex_Main "HOL-Library.Multiset"
begin

section \<open>dzcp: parallel zero-copy file duplication\<close>

text \<open>
  A shallow embedding of \<^verbatim>\<open>dzcp.c\<close>. The program forks \<^verbatim>\<open>num_processes\<close> workers;
  worker \<^verbatim>\<open>process_num\<close> runs \<^verbatim>\<open>copy_blocks\<close>, which moves every
  \<^verbatim>\<open>num_processes\<close>-th block of the source with \<^verbatim>\<open>sendfile(2)\<close>. Everything the
  operating system decides (results of \<^verbatim>\<open>stat\<close>, \<^verbatim>\<open>open\<close>, \<^verbatim>\<open>fork\<close>,
  \<^verbatim>\<open>sendfile\<close>, the clock) is an explicit input of the model.
\<close>

subsection \<open>Machine integers (LP64: 32-bit int, 64-bit size_t, ssize_t and off_t)\<close>

text \<open>
  Values are mathematical integers; every conversion and every unsigned operation of the
  source reduces them explicitly. Unsigned arithmetic wraps modulo \<open>2^64\<close>; the
  conversion of an out-of-range value to a signed type is the two's complement one.
\<close>

definition to_size_t :: "int \<Rightarrow> int" where
  "to_size_t x = x mod 2 ^ 64"

definition to_off_t :: "int \<Rightarrow> int" where
  "to_off_t x = (x + 2 ^ 63) mod 2 ^ 64 - 2 ^ 63"

definition to_ssize_t :: "int \<Rightarrow> int" where
  "to_ssize_t x = (x + 2 ^ 63) mod 2 ^ 64 - 2 ^ 63"

text \<open>\<^verbatim>\<open>a * b\<close> and \<^verbatim>\<open>a + b\<close> where one operand is a \<^verbatim>\<open>size_t\<close>: the other operand is
  converted to \<^verbatim>\<open>size_t\<close> and the result wraps.\<close>

definition size_mul :: "int \<Rightarrow> int \<Rightarrow> int" where
  "size_mul a b = (to_size_t a * to_size_t b) mod 2 ^ 64"

definition size_add :: "int \<Rightarrow> int \<Rightarrow> int" where
  "size_add a b = (to_size_t a + to_size_t b) mod 2 ^ 64"

text \<open>Signed 32-bit \<^verbatim>\<open>int\<close> arithmetic: a result that does not fit, a negative shift count
  and a shift count of 32 or more are undefined behaviour, the value \<open>None\<close>.\<close>

definition INT_MAX :: int where
  "INT_MAX = 2 ^ 31 - 1"

definition INT_MIN :: int where
  "INT_MIN = - (2 ^ 31)"

definition in_int :: "int \<Rightarrow> bool" where
  "in_int x \<longleftrightarrow> INT_MIN \<le> x \<and> x \<le> INT_MAX"

definition int_mul :: "int \<Rightarrow> int \<Rightarrow> int option" where
  "int_mul a b = (if in_int (a * b) then Some (a * b) else None)"

definition int_shl :: "int \<Rightarrow> int \<Rightarrow> int option" where
  "int_shl a k =
     (if k < 0 \<or> 32 \<le> k \<or> a < 0 then None
      else if in_int (a * 2 ^ nat k) then Some (a * 2 ^ nat k) else None)"

subsection \<open>The transfer primitive\<close>

datatype errno = EINTR | EAGAIN | EINVAL | EIO | ENOSPC | EFBIG

text \<open>
  What the kernel does at one call of \<^verbatim>\<open>sendfile\<close> is an input:
  \<^item> \<open>Moved k\<close>: the call moves bytes, \<open>k\<close> fewer than it could (at least one);
  \<^item> \<open>Failed e\<close>: the call returns \<open>-1\<close> and sets \<^verbatim>\<open>errno\<close> to \<open>e\<close>;
  \<^item> \<open>Nothing\<close>: the call returns \<open>0\<close> and leaves \<^verbatim>\<open>errno\<close> as it was.
\<close>

datatype sendfile_event = Moved nat | Failed errno | Nothing

text \<open>\<^verbatim>\<open>lseek(fd, pos, SEEK_SET)\<close> fails exactly for a negative position.\<close>

definition lseek_fails :: "int \<Rightarrow> bool" where
  "lseek_fails pos \<longleftrightarrow> pos < 0"

subsection \<open>The worker: \<^verbatim>\<open>copy_blocks\<close>\<close>

text \<open>
  The worker's variables and what it has done so far: \<open>dest_pos\<close> is the file position
  of \<^verbatim>\<open>dest_fd\<close>; \<open>errno_now\<close> is the value \<^verbatim>\<open>errno\<close> reads; \<open>seeks\<close> has one
  entry per successful \<^verbatim>\<open>lseek\<close> (the values of \<^verbatim>\<open>offset\<close> and \<^verbatim>\<open>dest_offset\<close> at
  that moment); \<open>writes\<close> has one entry per call of \<^verbatim>\<open>sendfile\<close> that moved bytes
  (source offset, destination position, byte count); \<open>ranges\<close> has one entry per
  finished pass of the outer loop (the offset at which the pass started and the bytes its
  inner loop moved); \<open>calls\<close> counts the invocations of \<^verbatim>\<open>sendfile\<close>.
\<close>

record worker =
  offset :: int
  dest_offset :: int
  dest_pos :: int
  errno_now :: errno
  source_open :: bool
  dest_open :: bool
  seeks :: "(int \<times> int) list"
  writes :: "(int \<times> int \<times> int) list"
  ranges :: "(int \<times> int) list"
  calls :: nat

text \<open>
  \<^verbatim>\<open>sendfile(dest_fd, source_fd, &offset, cnt)\<close> on a source of \<open>file_size\<close> bytes: the
  return value and the worker's state after the call. A negative offset is refused with
  \<open>EINVAL\<close>. Otherwise at most \<open>cnt\<close> bytes and at most the bytes up to the end of the
  source are moved, from the source at \<^verbatim>\<open>offset\<close> to the destination at the position of
  \<^verbatim>\<open>dest_fd\<close>, and both advance by the number of bytes moved.
\<close>

definition sendfile :: "int \<Rightarrow> int \<Rightarrow> sendfile_event \<Rightarrow> worker \<Rightarrow> int \<times> worker" where
  "sendfile file_size cnt ev w =
     (let w1 = w\<lparr>calls := Suc (calls w)\<rparr>;
          avail = min cnt (file_size - offset w)
      in if offset w < 0 then (- 1, w1\<lparr>errno_now := EINVAL\<rparr>)
         else case ev of
           Failed e \<Rightarrow> (- 1, w1\<lparr>errno_now := e\<rparr>)
         | Nothing \<Rightarrow> (0, w1)
         | Moved k \<Rightarrow>
             (if avail \<le> 0 then (0, w1)
              else let n = max 1 (avail - int k)
                   in (n, w1\<lparr>offset := offset w + n, dest_pos := dest_pos w + n,
                             writes := writes w @ [(offset w, dest_pos w, n)]\<rparr>)))"

text \<open>How a piece of code ends: it falls through, it calls \<^verbatim>\<open>exit\<close>, or it is still
  looping when the observation ends (the events or the passes granted are used up).\<close>

datatype ending = Returns | Exits int | Unfinished

definition close_both :: "worker \<Rightarrow> worker" where
  "close_both w = w\<lparr>source_open := False, dest_open := False\<rparr>"

text \<open>The inner loop \<^verbatim>\<open>while (to_send > 0 && offset < file_size)\<close>; each call of
  \<^verbatim>\<open>sendfile\<close> takes the next kernel event.\<close>

fun send_block ::
  "int \<Rightarrow> sendfile_event list \<Rightarrow> int \<Rightarrow> worker \<Rightarrow> ending \<times> worker \<times> sendfile_event list"
where
  "send_block file_size [] to_send w =
     (if to_send > 0 \<and> offset w < file_size then (Unfinished, w, [])
      else (Returns, w, []))"
| "send_block file_size (ev # evs) to_send w =
     (if to_send > 0 \<and> offset w < file_size then
        (let (bytes_sent, w1) = sendfile file_size to_send ev w
         in if bytes_sent \<le> 0 then
              (if errno_now w1 = EINTR \<or> errno_now w1 = EAGAIN
               then send_block file_size evs to_send w1
               else (Exits 1, close_both w1, evs))
            else send_block file_size evs (to_send - bytes_sent) w1)
      else (Returns, w, ev # evs))"

text \<open>The outer loop \<^verbatim>\<open>while (offset < file_size)\<close>. The first argument bounds the
  passes that are observed.\<close>

fun copy_loop ::
  "nat \<Rightarrow> int \<Rightarrow> int \<Rightarrow> int \<Rightarrow> sendfile_event list \<Rightarrow> worker \<Rightarrow> ending \<times> worker"
where
  "copy_loop fuel file_size num_processes block_size evs w =
     (if offset w < file_size then
        (if lseek_fails (dest_offset w) then (Exits 1, close_both w)
         else case fuel of
           0 \<Rightarrow> (Unfinished, w)
         | Suc fuel' \<Rightarrow>
             (case send_block file_size evs (to_ssize_t block_size)
                     (w\<lparr>dest_pos := dest_offset w,
                        seeks := seeks w @ [(offset w, dest_offset w)]\<rparr>) of
                (Returns, w1, evs') \<Rightarrow>
                  copy_loop fuel' file_size num_processes block_size evs'
                    (w1\<lparr>dest_offset :=
                           to_off_t (size_add (dest_offset w1) (size_mul num_processes block_size)),
                        offset :=
                           to_off_t (size_add (offset w1) (size_mul (num_processes - 1) block_size)),
                        ranges := ranges w1 @ [(offset w, offset w1 - offset w)]\<rparr>)
              | (e, w1, evs') \<Rightarrow> (e, w1)))
      else (Returns, close_both w))"

text \<open>What the operating system grants one worker: the value \<^verbatim>\<open>errno\<close> reads when it
  starts, whether its two \<^verbatim>\<open>open\<close> calls succeed, the kernel events that its \<^verbatim>\<open>sendfile\<close>
  calls meet, and for how many passes of the outer loop it is observed.\<close>

record child_env =
  errno0 :: errno
  src_ok :: bool
  dst_ok :: bool
  events :: "sendfile_event list"
  passes :: nat

definition copy_blocks :: "child_env \<Rightarrow> int \<Rightarrow> int \<Rightarrow> int \<Rightarrow> int \<Rightarrow> ending \<times> worker" where
  "copy_blocks ce file_size process_num num_processes block_size =
     (let offset0 = to_off_t (size_mul process_num block_size);
          w = \<lparr>offset = offset0, dest_offset = offset0, dest_pos = 0, errno_now = errno0 ce,
               source_open = False, dest_open = False,
               seeks = [], writes = [], ranges = [], calls = 0\<rparr>
      in if \<not> src_ok ce then (Exits 1, w)
         else if \<not> dst_ok ce then (Exits 1, w)
         else copy_loop (passes ce) file_size num_processes block_size (events ce)
                (w\<lparr>source_open := True, dest_open := True\<rparr>))"

text \<open>The sequence of ranges of the partition planner, in the words of the specification:
  it starts at \<open>worker_index * block_size\<close>, each further range starts
  \<open>worker_count * block_size\<close> after the one before, a range is
  \<open>min block_size (file_size - offset)\<close> long, and the sequence ends once the offset has
  reached \<open>file_size\<close>. (The stride must be positive for the sequence to be finite.)\<close>

function planned_from :: "int \<Rightarrow> int \<Rightarrow> int \<Rightarrow> int \<Rightarrow> (int \<times> int) list" where
  "planned_from file_size block_size worker_count off =
     (if off < file_size \<and> 0 < worker_count * block_size
      then (off, min block_size (file_size - off))
             # planned_from file_size block_size worker_count (off + worker_count * block_size)
      else [])"
  by pat_completeness auto
termination
  by (relation "measure (\<lambda>(file_size, block_size, worker_count, off). nat (file_size - off))")
     auto

definition planned_ranges :: "int \<Rightarrow> int \<Rightarrow> int \<Rightarrow> int \<Rightarrow> (int \<times> int) list" where
  "planned_ranges file_size block_size worker_count worker_index =
     planned_from file_size block_size worker_count (worker_index * block_size)"

text \<open>The bytes of a list of ranges, and the source bytes that a list of writes moved.\<close>

definition range_bytes :: "(int \<times> int) list \<Rightarrow> int set" where
  "range_bytes rs = (\<Union>(off, len) \<in> set rs. {off ..< off + len})"

definition moved_bytes :: "(int \<times> int \<times> int) list \<Rightarrow> int set" where
  "moved_bytes ws = (\<Union>(src, dst, len) \<in> set ws. {src ..< src + len})"


subsection \<open>The orchestrator: \<^verbatim>\<open>perform_copy\<close>\<close>

record RunResult =
  num_processes :: int
  block_size :: int
  elapsed_time :: real
  shift_value :: int

text \<open>How a routine of the parent process ends: it returns a value, it calls
  \<^verbatim>\<open>exit\<close>, it blocks for ever in \<^verbatim>\<open>wait\<close>, or its behaviour is undefined.\<close>

datatype 'a proc = Done 'a | Exit int | Blocked | Undefined

record timeval =
  tv_sec :: int
  tv_usec :: int

text \<open>What the operating system decides during one call of \<^verbatim>\<open>perform_copy\<close>: the size
  \<^verbatim>\<open>stat\<close> reports for the source (\<open>None\<close> when it fails), whether the destination
  can be created, which calls of \<^verbatim>\<open>fork\<close> succeed, what each worker meets, and the two
  readings of the clock.\<close>

record run_env =
  stat_size :: "int option"
  creat_ok :: bool
  fork_ok :: "int \<Rightarrow> bool"
  child :: "int \<Rightarrow> child_env"
  start_time :: timeval
  end_time :: timeval

text \<open>What one call of \<^verbatim>\<open>perform_copy\<close> leaves behind: how the parent ended, every worker
  forked (how it ended and its final state), and the length of the destination file
  (\<open>None\<close> when the call did not create it).\<close>

record copy_outcome =
  parent :: "RunResult proc"
  children :: "(ending \<times> worker) list"
  dest_length :: "int option"

text \<open>The child's branch after \<^verbatim>\<open>fork\<close>: \<^verbatim>\<open>copy_blocks(...); exit(0);\<close>\<close>

definition child_process :: "child_env \<Rightarrow> int \<Rightarrow> int \<Rightarrow> int \<Rightarrow> int \<Rightarrow> ending \<times> worker" where
  "child_process ce file_size i nprocs bsize =
     (case copy_blocks ce file_size i nprocs bsize of
        (Returns, w) \<Rightarrow> (Exits 0, w)
      | (e, w) \<Rightarrow> (e, w))"

text \<open>The loop \<^verbatim>\<open>for (int i = 0; i < num_processes; i++)\<close> around \<^verbatim>\<open>fork\<close>: the workers
  forked, and whether every call of \<^verbatim>\<open>fork\<close> succeeded.\<close>

function spawn ::
  "run_env \<Rightarrow> int \<Rightarrow> int \<Rightarrow> int \<Rightarrow> int \<Rightarrow> (ending \<times> worker) list \<Rightarrow> bool \<times> (ending \<times> worker) list"
where
  "spawn env file_size nprocs bsize i kids =
     (if i < nprocs then
        (if \<not> fork_ok env i then (False, kids)
         else spawn env file_size nprocs bsize (i + 1)
                (kids @ [child_process (child env i) file_size i nprocs bsize]))
      else (True, kids))"
  by pat_completeness auto
termination
  by (relation "measure (\<lambda>(env, file_size, nprocs, bsize, i, kids). nat (nprocs - i))") auto

text \<open>The destination is truncated to length 0 before the workers start; a write of
  \<open>len\<close> bytes at position \<open>dst\<close> makes the file at least \<open>dst + len\<close> long.\<close>

definition written_length :: "(ending \<times> worker) list \<Rightarrow> int" where
  "written_length kids =
     fold max (map (\<lambda>(src, dst, len). dst + len) (concat (map (\<lambda>k. writes (snd k)) kids))) 0"

text \<open>\<^verbatim>\<open>(end_time.tv_sec - start_time.tv_sec) + (end_time.tv_usec - start_time.tv_usec) / 1000000.0\<close>,
  without the rounding of \<^verbatim>\<open>double\<close>.\<close>

definition elapsed :: "timeval \<Rightarrow> timeval \<Rightarrow> real" where
  "elapsed t0 t1 =
     real_of_int (tv_sec t1 - tv_sec t0) + real_of_int (tv_usec t1 - tv_usec t0) / 1000000"

text \<open>\<^verbatim>\<open>perform_copy\<close>. The parent calls \<^verbatim>\<open>wait(NULL)\<close> once per worker and never looks
  at a worker's status; it stays blocked when a worker does not end. The two
  \<^verbatim>\<open>printf\<close> lines are not modelled.\<close>

definition perform_copy :: "run_env \<Rightarrow> int \<Rightarrow> int \<Rightarrow> RunResult \<Rightarrow> copy_outcome" where
  "perform_copy env nprocs bsize result =
     (case stat_size env of
        None \<Rightarrow> \<lparr>parent = Exit 1, children = [], dest_length = None\<rparr>
      | Some file_size \<Rightarrow>
          if \<not> creat_ok env then \<lparr>parent = Exit 1, children = [], dest_length = None\<rparr>
          else
            (case spawn env file_size nprocs bsize 0 [] of
               (False, kids) \<Rightarrow>
                 \<lparr>parent = Exit 1, children = kids, dest_length = Some (written_length kids)\<rparr>
             | (True, kids) \<Rightarrow>
                 \<lparr>parent =
                    (if \<exists>k \<in> set kids. fst k = Unfinished then Blocked
                     else Done (result\<lparr>num_processes := nprocs, block_size := bsize,
                                        elapsed_time := elapsed (start_time env) (end_time env)\<rparr>)),
                  children = kids,
                  dest_length = Some (written_length kids)\<rparr>))"

subsection \<open>The benchmark search: \<^verbatim>\<open>find_optimal_settings\<close>\<close>

definition MAX_RUNS :: int where
  "MAX_RUNS = 1000"

text \<open>\<^verbatim>\<open>size_t block_sizes[] = {64 * 1024, 128 * 1024, 256 * 1024, 512 * 1024, 1024 * 1024}\<close>\<close>

definition block_sizes :: "int list" where
  "block_sizes = [64 * 1024, 128 * 1024, 256 * 1024, 512 * 1024, 1024 * 1024]"

definition compare_run_results :: "RunResult \<Rightarrow> RunResult \<Rightarrow> int" where
  "compare_run_results run_a run_b =
     (if elapsed_time run_a > elapsed_time run_b then 1 else 0)
       - (if elapsed_time run_a < elapsed_time run_b then 1 else 0)"

text \<open>\<^verbatim>\<open>qsort\<close> of the C library, as an insertion sort by the comparison function. The
  order in which \<^verbatim>\<open>qsort\<close> leaves elements that compare equal is not specified, and
  nothing below depends on it.\<close>

fun qsort_insert :: "('a \<Rightarrow> 'a \<Rightarrow> int) \<Rightarrow> 'a \<Rightarrow> 'a list \<Rightarrow> 'a list" where
  "qsort_insert cmp x [] = [x]"
| "qsort_insert cmp x (y # ys) =
     (if cmp x y \<le> 0 then x # y # ys else y # qsort_insert cmp x ys)"

fun qsort :: "('a \<Rightarrow> 'a \<Rightarrow> int) \<Rightarrow> 'a list \<Rightarrow> 'a list" where
  "qsort cmp [] = []"
| "qsort cmp (x # xs) = qsort_insert cmp x (qsort cmp xs)"

text \<open>What the operating system decides during a whole run of the program: the effective
  user id, the number of processors, whether \<^verbatim>\<open>malloc\<close> succeeds, and for the \<open>k\<close>-th
  call of \<^verbatim>\<open>perform_copy\<close> (counted from 0) whether the page cache can be dropped before
  it, what the call meets, and whether the destination can be unlinked after it.\<close>

record world =
  euid :: int
  nprocs_online :: int
  malloc_ok :: bool
  drop_ok :: "nat \<Rightarrow> bool"
  run :: "nat \<Rightarrow> run_env"
  unlink_ok :: "nat \<Rightarrow> bool"

text \<open>The state of the sweep: the filled part of \<^verbatim>\<open>results\<close> (\<^verbatim>\<open>run_index\<close> is its
  length), whether the warning about \<^verbatim>\<open>MAX_RUNS\<close> was printed, and what the calls of
  \<^verbatim>\<open>perform_copy\<close> left behind.\<close>

record sweep =
  results :: "RunResult list"
  warned :: bool
  copies :: "copy_outcome list"

definition run_index :: "sweep \<Rightarrow> int" where
  "run_index st = int (length (results st))"

text \<open>The inner loop \<^verbatim>\<open>for (i = 0; i < 5; i++)\<close> over \<^verbatim>\<open>block_sizes\<close>, from index \<open>i\<close> on.\<close>

function sweep_block_sizes :: "world \<Rightarrow> int \<Rightarrow> int \<Rightarrow> sweep \<Rightarrow> unit proc \<times> sweep" where
  "sweep_block_sizes wd nprocs i st =
     (if 0 \<le> i \<and> i < int (length block_sizes) then
        (if run_index st \<ge> MAX_RUNS then (Done (), st\<lparr>warned := True\<rparr>)
         else if \<not> drop_ok wd (length (results st)) then (Exit 1, st)
         else
           (let shift = 6 + i;
                slot = \<lparr>num_processes = 0, block_size = 0, elapsed_time = 0, shift_value = shift\<rparr>;
                out = perform_copy (run wd (length (results st))) nprocs (block_sizes ! nat i) slot;
                st1 = st\<lparr>copies := copies st @ [out]\<rparr>
            in case parent out of
                 Done r \<Rightarrow>
                   if \<not> unlink_ok wd (length (results st)) then (Exit 1, st1)
                   else sweep_block_sizes wd nprocs (i + 1) (st1\<lparr>results := results st @ [r]\<rparr>)
               | Exit c \<Rightarrow> (Exit c, st1)
               | Blocked \<Rightarrow> (Blocked, st1)
               | Undefined \<Rightarrow> (Undefined, st1)))
      else (Done (), st))"
  by pat_completeness auto
termination
  by (relation "measure (\<lambda>(wd, nprocs, i, st). nat (int (length block_sizes) - i))") auto

text \<open>The outer loop \<^verbatim>\<open>for (processes_per_cpu = 1; processes_per_cpu <= 6; ...)\<close>.\<close>

function sweep_process_counts :: "world \<Rightarrow> int \<Rightarrow> int \<Rightarrow> sweep \<Rightarrow> unit proc \<times> sweep" where
  "sweep_process_counts wd num_cpus processes_per_cpu st =
     (if processes_per_cpu \<le> 6 then
        (case int_mul processes_per_cpu num_cpus of
           None \<Rightarrow> (Undefined, st)
         | Some nprocs \<Rightarrow>
             (case sweep_block_sizes wd nprocs 0 st of
                (Done u, st1) \<Rightarrow> sweep_process_counts wd num_cpus (processes_per_cpu + 1) st1
              | (e, st1) \<Rightarrow> (e, st1)))
      else (Done (), st))"
  by pat_completeness auto
termination
  by (relation "measure (\<lambda>(wd, num_cpus, processes_per_cpu, st). nat (7 - processes_per_cpu))") auto

text \<open>The two report loops: the lines printed, each the number after \<^verbatim>\<open>Run\<close> and the
  entry of the sorted array.\<close>

function fastest_from :: "RunResult list \<Rightarrow> int \<Rightarrow> int \<Rightarrow> (int \<times> RunResult) list" where
  "fastest_from rs n i =
     (if i < 5 \<and> i < n then (i + 1, rs ! nat i) # fastest_from rs n (i + 1) else [])"
  by pat_completeness auto
termination
  by (relation "measure (\<lambda>(rs, n, i). nat (5 - i))") auto

function slowest_from :: "RunResult list \<Rightarrow> int \<Rightarrow> int \<Rightarrow> (int \<times> RunResult) list" where
  "slowest_from rs n i =
     (if i \<ge> n - 5 \<and> i \<ge> 0 then (n - i, rs ! nat i) # slowest_from rs n (i - 1) else [])"
  by pat_completeness auto
termination
  by (relation "measure (\<lambda>(rs, n, i). nat (i + 1))") auto

record report =
  sorted_runs :: "RunResult list"
  fastest :: "(int \<times> RunResult) list"
  slowest :: "(int \<times> RunResult) list"

text \<open>The part of \<^verbatim>\<open>find_optimal_settings\<close> after the sweep: \<^verbatim>\<open>qsort\<close> and the two
  loops, on the \<^verbatim>\<open>run_index\<close> collected results.\<close>

definition report_runs :: "RunResult list \<Rightarrow> report" where
  "report_runs rs =
     (let sorted = qsort compare_run_results rs;
          n = int (length rs)
      in \<lparr>sorted_runs = sorted,
          fastest = fastest_from sorted n 0,
          slowest = slowest_from sorted n (n - 1)\<rparr>)"

definition find_optimal_settings :: "world \<Rightarrow> report proc \<times> sweep" where
  "find_optimal_settings wd =
     (let st0 = \<lparr>results = [], warned = False, copies = []\<rparr>
      in if \<not> malloc_ok wd then (Exit 1, st0)
         else case sweep_process_counts wd (nprocs_online wd) 1 st0 of
                (Done u, st) \<Rightarrow> (Done (report_runs (results st)), st)
              | (Exit c, st) \<Rightarrow> (Exit c, st)
              | (Blocked, st) \<Rightarrow> (Blocked, st)
              | (Undefined, st) \<Rightarrow> (Undefined, st))"

subsection \<open>The command line: \<^verbatim>\<open>main\<close>\<close>

text \<open>What \<^verbatim>\<open>getopt\<close> hands to the loop, one element per option found: \<^verbatim>\<open>-p\<close> and
  \<^verbatim>\<open>-s\<close> with the value of \<^verbatim>\<open>atoi(optarg)\<close>, \<^verbatim>\<open>-o\<close>, and anything \<^verbatim>\<open>getopt\<close> rejects.
  \<open>operands\<close> is \<^verbatim>\<open>argc - optind\<close> after the loop.\<close>

datatype opt = Opt_p int | Opt_s int | Opt_o | Opt_bad

record args =
  opts :: "opt list"
  operands :: int

text \<open>\<^verbatim>\<open>64 * 1024 * (1 << (shift_value - 6))\<close>, computed in \<^verbatim>\<open>int\<close> and converted to
  \<^verbatim>\<open>size_t\<close>.\<close>

definition block_size_of_shift :: "int \<Rightarrow> int option" where
  "block_size_of_shift shift =
     (case int_shl 1 (shift - 6) of
        None \<Rightarrow> None
      | Some p \<Rightarrow> (case int_mul (64 * 1024) p of
                     None \<Rightarrow> None
                   | Some b \<Rightarrow> Some (to_size_t b)))"

text \<open>The variables of \<^verbatim>\<open>main\<close>; \<open>block\<close> is \<open>None\<close> while \<^verbatim>\<open>block_size\<close> is not
  initialised.\<close>

record settings =
  procs :: int
  shift :: int
  optimize :: bool
  block :: "int option"

text \<open>The loop \<^verbatim>\<open>while ((opt = getopt(argc, argv, "p:s:o")) != -1)\<close>.\<close>

fun parse_opts :: "world \<Rightarrow> opt list \<Rightarrow> settings \<Rightarrow> settings proc" where
  "parse_opts wd [] st = Done st"
| "parse_opts wd (Opt_p v # rest) st = parse_opts wd rest (st\<lparr>procs := v\<rparr>)"
| "parse_opts wd (Opt_s v # rest) st =
     (case block_size_of_shift v of
        None \<Rightarrow> Undefined
      | Some b \<Rightarrow> parse_opts wd rest (st\<lparr>shift := v, block := Some b\<rparr>))"
| "parse_opts wd (Opt_o # rest) st =
     (if euid wd \<noteq> 0 then Exit 1 else parse_opts wd rest (st\<lparr>optimize := True\<rparr>))"
| "parse_opts wd (Opt_bad # rest) st = Exit 1"

text \<open>The defaults applied after the loop: \<^verbatim>\<open>num_processes = num_cpus * 4\<close> when it is
  0, shift 10 when \<^verbatim>\<open>shift_value\<close> is 0.\<close>

definition resolve :: "world \<Rightarrow> settings \<Rightarrow> settings proc" where
  "resolve wd st =
     (case (if procs st = 0 then int_mul (nprocs_online wd) 4 else Some (procs st)) of
        None \<Rightarrow> Undefined
      | Some n \<Rightarrow>
          if shift st = 0
          then (case block_size_of_shift 10 of
                  None \<Rightarrow> Undefined
                | Some b \<Rightarrow> Done (st\<lparr>procs := n, shift := 10, block := Some b\<rparr>))
          else Done (st\<lparr>procs := n\<rparr>))"

text \<open>What a run of the program leaves behind: how \<^verbatim>\<open>main\<close> ended (\<open>Done c\<close> is
  \<^verbatim>\<open>return c\<close>), the outcome of every call of \<^verbatim>\<open>perform_copy\<close>, and the report of the
  benchmark search.\<close>

record outcome =
  ended :: "int proc"
  copied :: "copy_outcome list"
  reported :: "report option"

definition main :: "world \<Rightarrow> args \<Rightarrow> outcome" where
  "main wd a =
     (let nothing = \<lparr>ended = Exit 1, copied = [], reported = None\<rparr>
      in case parse_opts wd (opts a) \<lparr>procs = 0, shift = 0, optimize = False, block = None\<rparr> of
           Exit c \<Rightarrow> nothing\<lparr>ended := Exit c\<rparr>
         | Blocked \<Rightarrow> nothing\<lparr>ended := Blocked\<rparr>
         | Undefined \<Rightarrow> nothing\<lparr>ended := Undefined\<rparr>
         | Done st \<Rightarrow>
             if operands a < 2 then nothing\<lparr>ended := Done 1\<rparr>
             else
               (case resolve wd st of
                  Exit c \<Rightarrow> nothing\<lparr>ended := Exit c\<rparr>
                | Blocked \<Rightarrow> nothing\<lparr>ended := Blocked\<rparr>
                | Undefined \<Rightarrow> nothing\<lparr>ended := Undefined\<rparr>
                | Done st1 \<Rightarrow>
                    if optimize st1 then
                      (case find_optimal_settings wd of
                         (Done rep, sw) \<Rightarrow>
                           \<lparr>ended = Done 0, copied = copies sw, reported = Some rep\<rparr>
                       | (Exit c, sw) \<Rightarrow> \<lparr>ended = Exit c, copied = copies sw, reported = None\<rparr>
                       | (Blocked, sw) \<Rightarrow> \<lparr>ended = Blocked, copied = copies sw, reported = None\<rparr>
                       | (Undefined, sw) \<Rightarrow>
                           \<lparr>ended = Undefined, copied = copies sw, reported = None\<rparr>)
                    else
                      (case block st1 of
                         None \<Rightarrow> nothing\<lparr>ended := Undefined\<rparr>
                       | Some bsize \<Rightarrow>
                           (let slot = \<lparr>num_processes = 0, block_size = 0, elapsed_time = 0,
                                        shift_value = 0\<rparr>;
                                out = perform_copy (run wd 0) (procs st1) bsize slot
                            in \<lparr>ended = (case parent out of
                                           Done r \<Rightarrow> Done 0
                                         | Exit c \<Rightarrow> Exit c
                                         | Blocked \<Rightarrow> Blocked
                                         | Undefined \<Rightarrow> Undefined),
                                copied = [out], reported = None\<rparr>))))"



subsection \<open>The grid of the benchmark search, in the words of the specification\<close>

text \<open>The worker counts \<open>C * 1\<close> to \<open>C * 6\<close> in the outer loop, the block sizes 64, 128,
  256, 512 and 1024 KiB with the shift values 6 to 10 in the inner loop; an entry is the
  worker count, the block size in bytes and the shift value of a run.\<close>

definition grid_row :: "int \<Rightarrow> (int \<times> int \<times> int) list" where
  "grid_row workers =
     map (\<lambda>(kib, s). (workers, kib * 1024, s))
       [(64, 6), (128, 7), (256, 8), (512, 9), (1024, 10)]"

definition grid :: "int \<Rightarrow> (int \<times> int \<times> int) list" where
  "grid cpu_count = concat (map (\<lambda>k. grid_row (cpu_count * k)) [1, 2, 3, 4, 5, 6])"

definition settings_of :: "RunResult \<Rightarrow> int \<times> int \<times> int" where
  "settings_of r = (num_processes r, block_size r, shift_value r)"

subsection \<open>The passes of the benchmark search\<close>

text \<open>Pass \<open>m\<close> of the search is the \<open>m\<close>-th execution of the body of the inner loop,
  counted from 0, and \<open>nth_copy wd m\<close> is the call of \<^verbatim>\<open>perform_copy\<close> made in it. The
  inner loop runs five times, so pass \<open>m\<close> belongs to round \<open>m div 5\<close> of the outer loop,
  where \<^verbatim>\<open>processes_per_cpu\<close> is \<open>m div 5 + 1\<close>, and has \<open>i = m mod 5\<close>; \<^verbatim>\<open>run_index\<close> is
  \<open>m\<close>, and the slot \<^verbatim>\<open>results[run_index]\<close> holds zeros and the shift value \<open>6 + i\<close>.\<close>

definition nth_copy :: "world \<Rightarrow> nat \<Rightarrow> copy_outcome" where
  "nth_copy wd m =
     perform_copy (run wd m) ((int (m div 5) + 1) * nprocs_online wd) (block_sizes ! (m mod 5))
       \<lparr>num_processes = 0, block_size = 0, elapsed_time = 0, shift_value = 6 + int (m mod 5)\<rparr>"

definition returned :: "'a proc \<Rightarrow> bool" where
  "returned p = (case p of Done r \<Rightarrow> True | _ \<Rightarrow> False)"

text \<open>Nothing fails in pass \<open>m\<close> of the search: the cache can be dropped, the copy of
  the pass returns, and the destination can be unlinked after it.\<close>

definition smooth :: "world \<Rightarrow> nat \<Rightarrow> bool" where
  "smooth wd m \<longleftrightarrow> drop_ok wd m \<and> returned (parent (nth_copy wd m)) \<and> unlink_ok wd m"

text \<open>How the search ends in a pass \<open>m\<close> that is not smooth: blocked in \<^verbatim>\<open>wait\<close> when a
  worker of its copy does not end, with \<^verbatim>\<open>exit(1)\<close> in every other case.\<close>

definition fail_end :: "world \<Rightarrow> nat \<Rightarrow> 'a proc" where
  "fail_end wd m = (if drop_ok wd m \<and> parent (nth_copy wd m) = Blocked then Blocked else Exit 1)"

subsection \<open>Auxiliary notions for the proofs\<close>

text \<open>The state after a call of \<^verbatim>\<open>sendfile\<close> that moved nothing, and after one that
  moved \<open>n\<close> bytes.\<close>

definition called :: "errno \<Rightarrow> worker \<Rightarrow> worker" where
  "called err w = w\<lparr>calls := Suc (calls w), errno_now := err\<rparr>"

definition advanced :: "int \<Rightarrow> worker \<Rightarrow> worker" where
  "advanced n w = w\<lparr>calls := Suc (calls w), offset := offset w + n, dest_pos := dest_pos w + n,
                     writes := writes w @ [(offset w, dest_pos w, n)]\<rparr>"

text \<open>The state after the \<^verbatim>\<open>lseek\<close> of a pass, and after the two additions that end it.\<close>

definition seeked :: "worker \<Rightarrow> worker" where
  "seeked w = w\<lparr>dest_pos := dest_offset w, seeks := seeks w @ [(offset w, dest_offset w)]\<rparr>"

definition stepped :: "int \<Rightarrow> int \<Rightarrow> worker \<Rightarrow> worker \<Rightarrow> worker" where
  "stepped n bs w w1 =
     w1\<lparr>dest_offset := to_off_t (size_add (dest_offset w1) (size_mul n bs)),
        offset := to_off_t (size_add (offset w1) (size_mul (n - 1) bs)),
        ranges := ranges w1 @ [(offset w, offset w1 - offset w)]\<rparr>"

text \<open>No addition of the worker leaves the range of \<^verbatim>\<open>off_t\<close>.\<close>

definition fits :: "int \<Rightarrow> int \<Rightarrow> int \<Rightarrow> bool" where
  "fits fs n bs \<longleftrightarrow> 0 < bs \<and> 0 < n \<and> 0 \<le> fs \<and> fs + n * bs < 2 ^ 63"

text \<open>Every seek and every write so far went to the destination position that equals the
  source offset.\<close>

definition aligned :: "worker \<Rightarrow> bool" where
  "aligned w \<longleftrightarrow> (\<forall>(off, dst) \<in> set (seeks w). dst = off) \<and>
                 (\<forall>(src, dst, len) \<in> set (writes w). dst = src)"

text \<open>Kernel events that let a worker go on: bytes moved, or a transient failure. \<open>moves\<close>
  counts the events that move bytes.\<close>

definition harmless :: "sendfile_event \<Rightarrow> bool" where
  "harmless ev = (case ev of Moved k \<Rightarrow> True | Failed e \<Rightarrow> e = EINTR \<or> e = EAGAIN | Nothing \<Rightarrow> False)"

definition moves :: "sendfile_event list \<Rightarrow> nat" where
  "moves evs = length (filter (\<lambda>ev. case ev of Moved k \<Rightarrow> True | _ \<Rightarrow> False) evs)"

subsection \<open>Sample environments\<close>

text \<open>A worker for which both files open and every call of \<^verbatim>\<open>sendfile\<close> moves all it
  can; and one that also meets interruptions and short transfers.\<close>

definition plain_child :: child_env where
  "plain_child =
     \<lparr>errno0 = EIO, src_ok = True, dst_ok = True, events = replicate 12 (Moved 0), passes = 12\<rparr>"

definition bumpy_child :: child_env where
  "bumpy_child =
     \<lparr>errno0 = EIO, src_ok = True, dst_ok = True,
      events = [Moved 0, Failed EINTR, Moved 1, Moved 0, Failed EAGAIN, Moved 0, Moved 0,
                Moved 0, Moved 0, Moved 0, Moved 0, Moved 0],
      passes = 10\<rparr>"

text \<open>A call of \<^verbatim>\<open>perform_copy\<close> in which nothing fails, on a source of 10 bytes, taking
  \<open>secs\<close> seconds; and one in which worker 0 meets an I/O error at its first transfer.\<close>

definition calm_run :: "int \<Rightarrow> run_env" where
  "calm_run secs =
     \<lparr>stat_size = Some 10, creat_ok = True, fork_ok = (\<lambda>i. True), child = (\<lambda>i. plain_child),
      start_time = \<lparr>tv_sec = 100, tv_usec = 250000\<rparr>,
      end_time = \<lparr>tv_sec = 100 + secs, tv_usec = 750000\<rparr>\<rparr>"



text \<open>A worker whose source loses its tail while it is copied: \<^verbatim>\<open>stat\<close> has reported
  10 bytes, the first call of \<^verbatim>\<open>sendfile\<close> moves a block of 4 bytes, then the source is
  cut to 4 bytes and each of the \<open>k\<close> further calls finds its end and returns 0. In
  \<open>starved_child\<close> the worker was interrupted once before the first block; in
  \<open>cut_child\<close> it was not, and \<^verbatim>\<open>errno\<close> still reads what the process started with.\<close>

definition cut_child :: "nat \<Rightarrow> child_env" where
  "cut_child k =
     \<lparr>errno0 = EIO, src_ok = True, dst_ok = True,
      events = Moved 0 # replicate k Nothing, passes = 3\<rparr>"

definition starved_child :: "nat \<Rightarrow> child_env" where
  "starved_child k =
     \<lparr>errno0 = EIO, src_ok = True, dst_ok = True,
      events = Failed EINTR # Moved 0 # replicate k Nothing, passes = 3\<rparr>"

definition starved_run :: "nat \<Rightarrow> run_env" where
  "starved_run k = (calm_run 1)\<lparr>child := (\<lambda>i. starved_child k)\<rparr>"


text \<open>A call of \<^verbatim>\<open>perform_copy\<close> on an empty source; and the zeroed slot of the result.\<close>

definition empty_run :: run_env where
  "empty_run = (calm_run 2)\<lparr>stat_size := Some 0\<rparr>"

definition empty_slot :: RunResult where
  "empty_slot = \<lparr>num_processes = 0, block_size = 0, elapsed_time = 0, shift_value = 0\<rparr>"

text \<open>A machine with one processor, run by root, on which nothing fails and the \<open>k\<close>-th
  copy takes \<open>(7 * k) mod 11\<close> seconds; and the same machine with the troubled copy first.\<close>

definition calm_world :: world where
  "calm_world =
     \<lparr>euid = 0, nprocs_online = 1, malloc_ok = True, drop_ok = (\<lambda>k. True),
      run = (\<lambda>k. calm_run ((7 * int k) mod 11)), unlink_ok = (\<lambda>k. True)\<rparr>"


text \<open>The same machine with an empty source.\<close>

definition idle_world :: world where
  "idle_world = calm_world\<lparr>run := (\<lambda>k. (calm_run ((7 * int k) mod 11))\<lparr>stat_size := Some 0\<rparr>)\<rparr>"

text \<open>Three results, as a sweep cut short would leave them.\<close>

definition three_runs :: "RunResult list" where
  "three_runs =
     [\<lparr>num_processes = 1, block_size = 65536, elapsed_time = 3, shift_value = 6\<rparr>,
      \<lparr>num_processes = 1, block_size = 131072, elapsed_time = 1, shift_value = 7\<rparr>,
      \<lparr>num_processes = 1, block_size = 262144, elapsed_time = 2, shift_value = 8\<rparr>]"

section \<open>Proofs\<close>

subsection \<open>Conversions that change nothing\<close>

lemma to_off_t_id: "- (2 ^ 63) \<le> x \<Longrightarrow> x < 2 ^ 63 \<Longrightarrow> to_off_t x = x"
  by (simp add: to_off_t_def)

lemma to_ssize_t_id: "- (2 ^ 63) \<le> x \<Longrightarrow> x < 2 ^ 63 \<Longrightarrow> to_ssize_t x = x"
  by (simp add: to_ssize_t_def)

lemma to_size_t_id: "0 \<le> x \<Longrightarrow> x < 2 ^ 64 \<Longrightarrow> to_size_t x = x"
  by (simp add: to_size_t_def)

lemma size_mul_id:
  "0 \<le> a \<Longrightarrow> 0 \<le> b \<Longrightarrow> a < 2 ^ 64 \<Longrightarrow> b < 2 ^ 64 \<Longrightarrow> a * b < 2 ^ 64 \<Longrightarrow> size_mul a b = a * b"
  by (simp add: size_mul_def to_size_t_id)

lemma size_add_id:
  "0 \<le> a \<Longrightarrow> 0 \<le> b \<Longrightarrow> a + b < 2 ^ 64 \<Longrightarrow> size_add a b = a + b"
  by (simp add: size_add_def to_size_t_id)

declare send_block.simps [simp del]
declare copy_loop.simps [simp del]

lemma sendfile_cases:
  assumes "0 < cnt" "offset w < fs"
  obtains (fail) r err where "sendfile fs cnt ev w = (r, called err w)" "r \<le> 0"
    | (moved) n where "sendfile fs cnt ev w = (n, advanced n w)" "0 < n" "n \<le> cnt"
        "n \<le> fs - offset w" "0 \<le> offset w"
proof (cases "offset w < 0")
  case True
  then have "sendfile fs cnt ev w = (- 1, called EINVAL w)"
    by (simp add: sendfile_def called_def)
  then show ?thesis using fail by simp
next
  case nonneg: False
  show ?thesis
  proof (cases ev)
    case (Moved k)
    define n where "n = max 1 (min cnt (fs - offset w) - int k)"
    have "sendfile fs cnt ev w = (n, advanced n w)"
      using assms nonneg Moved by (simp add: sendfile_def advanced_def n_def Let_def)
    moreover have "0 < n" "n \<le> cnt" "n \<le> fs - offset w"
      using assms by (auto simp: n_def)
    ultimately show ?thesis using moved nonneg by simp
  next
    case (Failed e)
    then have "sendfile fs cnt ev w = (- 1, called e w)"
      using nonneg by (simp add: sendfile_def called_def)
    then show ?thesis using fail by simp
  next
    case Nothing
    then have "sendfile fs cnt ev w = (0, called (errno_now w) w)"
      using nonneg by (simp add: sendfile_def called_def)
    then show ?thesis using fail by simp
  qed
qed

lemma send_block_stop:
  "\<not> (ts > 0 \<and> offset w < fs) \<Longrightarrow> send_block fs evs ts w = (Returns, w, evs)"
  by (cases evs) (auto simp: send_block.simps)

lemma send_block_inv:
  assumes "send_block fs evs ts w = (e, w', evs')"
    and "I ts w"
    and retry: "\<And>ts w err. I ts w \<Longrightarrow> 0 < ts \<Longrightarrow> offset w < fs \<Longrightarrow> I ts (called err w)"
    and moved: "\<And>ts w n. I ts w \<Longrightarrow> 0 < ts \<Longrightarrow> offset w < fs \<Longrightarrow> 0 \<le> offset w \<Longrightarrow>
                  0 < n \<Longrightarrow> n \<le> ts \<Longrightarrow> n \<le> fs - offset w \<Longrightarrow> I (ts - n) (advanced n w)"
  shows "\<exists>ts' w''. I ts' w'' \<and>
           ((e = Returns \<and> w' = w'' \<and> \<not> (0 < ts' \<and> offset w'' < fs)) \<or>
            (e = Unfinished \<and> w' = w'' \<and> evs' = [] \<and> 0 < ts' \<and> offset w'' < fs) \<or>
            (e = Exits 1 \<and> w' = close_both w'' \<and> 0 < ts' \<and> offset w'' < fs))"
  using assms(1,2)
proof (induction evs arbitrary: ts w)
  case Nil
  then show ?case by (auto simp: send_block.simps split: if_splits)
next
  case (Cons ev evs)
  show ?case
  proof (cases "0 < ts \<and> offset w < fs")
    case False
    with Cons.prems show ?thesis by (auto simp: send_block_stop)
  next
    case True
    then have go: "0 < ts" "offset w < fs" by simp_all
    from go show ?thesis
    proof (cases rule: sendfile_cases [where ev = ev])
      case (fail r err)
      show ?thesis
      proof (cases "err = EINTR \<or> err = EAGAIN")
        case True
        have "send_block fs (ev # evs) ts w = send_block fs evs ts (called err w)"
          using go fail True by (auto simp: send_block.simps called_def)
        with Cons.prems have "send_block fs evs ts (called err w) = (e, w', evs')" by simp
        moreover have "I ts (called err w)" using retry Cons.prems(2) go by blast
        ultimately show ?thesis by (rule Cons.IH)
      next
        case False
        have "send_block fs (ev # evs) ts w = (Exits 1, close_both (called err w), evs)"
          using go fail False by (auto simp: send_block.simps called_def)
        with Cons.prems have "e = Exits 1" "w' = close_both (called err w)" by simp_all
        moreover have "I ts (called err w)" using retry Cons.prems(2) go by blast
        moreover have "offset (called err w) < fs" using go by (simp add: called_def)
        ultimately show ?thesis using go by blast
      qed
    next
      case (moved n)
      have "send_block fs (ev # evs) ts w = send_block fs evs (ts - n) (advanced n w)"
        using go moved by (auto simp: send_block.simps)
      with Cons.prems have "send_block fs evs (ts - n) (advanced n w) = (e, w', evs')" by simp
      moreover have "I (ts - n) (advanced n w)"
        using assms(4) Cons.prems(2) go moved by blast
      ultimately show ?thesis by (rule Cons.IH)
    qed
  qed
qed


lemma copy_loop_done:
  "\<not> offset w < fs \<Longrightarrow> copy_loop fuel fs n bs evs w = (Returns, close_both w)"
  by (simp add: copy_loop.simps)

lemma copy_loop_seek_fails:
  "offset w < fs \<Longrightarrow> lseek_fails (dest_offset w) \<Longrightarrow>
   copy_loop fuel fs n bs evs w = (Exits 1, close_both w)"
  by (simp add: copy_loop.simps)

lemma copy_loop_0:
  "offset w < fs \<Longrightarrow> \<not> lseek_fails (dest_offset w) \<Longrightarrow>
   copy_loop 0 fs n bs evs w = (Unfinished, w)"
  by (simp add: copy_loop.simps)

lemma copy_loop_Suc:
  "offset w < fs \<Longrightarrow> \<not> lseek_fails (dest_offset w) \<Longrightarrow>
   send_block fs evs (to_ssize_t bs) (seeked w) = (e, w1, evs') \<Longrightarrow>
   copy_loop (Suc fuel) fs n bs evs w =
     (if e = Returns then copy_loop fuel fs n bs evs' (stepped n bs w w1) else (e, w1))"
  by (cases e) (simp_all add: copy_loop.simps [of "Suc fuel"] seeked_def stepped_def)

lemma fits_pos: "fits fs n bs \<Longrightarrow> 0 < n * bs"
  by (simp add: fits_def)

lemma fits_small:
  assumes "fits fs n bs"
  shows "n * bs < 2 ^ 63 \<and> fs < 2 ^ 63"
proof -
  have p: "0 < n * bs" by (rule fits_pos [OF assms])
  have q: "fs + n * bs < 2 ^ 63" "0 \<le> fs" using assms by (simp_all add: fits_def)
  show ?thesis using p q by linarith
qed

lemma fits_mult_le: "fits fs n bs \<Longrightarrow> 0 \<le> k \<Longrightarrow> k \<le> n \<Longrightarrow> k * bs \<le> n * bs"
  by (simp add: fits_def mult_right_mono)

lemma fits_bs: "fits fs n bs \<Longrightarrow> bs \<le> n * bs"
  using fits_mult_le [of fs n bs 1] by (simp add: fits_def)

lemma fits_ssize:
  assumes "fits fs n bs"
  shows "to_ssize_t bs = bs"
proof -
  have "bs \<le> n * bs" "n * bs < 2 ^ 63" "0 < bs"
    using fits_bs [OF assms] fits_small [OF assms] assms by (simp_all add: fits_def)
  then show ?thesis by (intro to_ssize_t_id) linarith+
qed

lemma fits_add:
  assumes "fits fs n bs" "0 \<le> x" "x \<le> fs" "0 \<le> k" "k \<le> n"
  shows "to_off_t (size_add x (size_mul k bs)) = x + k * bs"
proof -
  have kb: "k * bs \<le> n * bs" using assms by (intro fits_mult_le)
  have nb: "0 \<le> k * bs" using assms by (simp add: fits_def)
  have bs: "bs \<le> n * bs" using assms(1) by (rule fits_bs)
  have small: "n * bs < 2 ^ 63" "fs < 2 ^ 63" using fits_small [OF assms(1)] by simp_all
  have k64: "k < 2 ^ 64"
  proof -
    have "k * 1 \<le> k * bs" using assms by (intro mult_left_mono) (auto simp: fits_def)
    then have "k \<le> k * bs" by simp
    moreover have "(2::int) ^ 63 < 2 ^ 64" by simp
    ultimately show ?thesis using kb small by linarith
  qed
  have pos: "0 < bs" using assms(1) by (simp add: fits_def)
  have p64: "(2::int) ^ 63 < 2 ^ 64" by simp
  have sum: "fs + n * bs < 2 ^ 63" using assms(1) by (simp add: fits_def)
  have "size_mul k bs = k * bs"
  proof (rule size_mul_id)
    show "0 \<le> k" by fact
    show "0 \<le> bs" using pos by simp
    show "k < 2 ^ 64" by fact
    show "bs < 2 ^ 64" using bs small p64 by linarith
    show "k * bs < 2 ^ 64" using kb small p64 by linarith
  qed
  moreover have "size_add x (k * bs) = x + k * bs"
  proof (rule size_add_id)
    show "0 \<le> x" by fact
    show "0 \<le> k * bs" by fact
    show "x + k * bs < 2 ^ 64" using kb sum assms(3) p64 by linarith
  qed
  moreover have "to_off_t (x + k * bs) = x + k * bs"
  proof (rule to_off_t_id)
    have "- (2 ^ 63) \<le> (0::int)" by simp
    then show "- (2 ^ 63) \<le> x + k * bs" using nb assms(2) by linarith
    show "x + k * bs < 2 ^ 63" using kb sum assms(3) by linarith
  qed
  ultimately show ?thesis by simp
qed


lemma send_block_frame:
  assumes "send_block fs evs ts w = (e, w', evs')"
  shows "dest_offset w' = dest_offset w \<and> ranges w' = ranges w \<and> seeks w' = seeks w"
proof -
  define I where "I = (\<lambda>(t::int) (v::worker). dest_offset v = dest_offset w \<and> ranges v = ranges w \<and> seeks v = seeks w)"
  have "\<exists>ts' (w''::worker). I ts' w'' \<and>
           ((e = Returns \<and> w' = w'' \<and> \<not> (0 < ts' \<and> offset w'' < fs)) \<or>
            (e = Unfinished \<and> w' = w'' \<and> evs' = [] \<and> 0 < ts' \<and> offset w'' < fs) \<or>
            (e = Exits 1 \<and> w' = close_both w'' \<and> 0 < ts' \<and> offset w'' < fs))"
    by (rule send_block_inv [OF assms, of I]) (simp_all add: I_def called_def advanced_def)
  then show ?thesis by (auto simp: I_def close_both_def)
qed

lemma send_block_offset:
  assumes "send_block fs evs ts w = (Returns, w', evs')" "0 \<le> ts" "offset w \<le> fs"
  shows "offset w' = min (offset w + ts) fs"
proof -
  define I where "I = (\<lambda>(t::int) (v::worker). 0 \<le> t \<and> offset v \<le> fs \<and> offset v + t = offset w + ts)"
  have "\<exists>ts' (w''::worker). I ts' w'' \<and>
           ((Returns = Returns \<and> w' = w'' \<and> \<not> (0 < ts' \<and> offset w'' < fs)) \<or>
            (Returns = Unfinished \<and> w' = w'' \<and> evs' = [] \<and> 0 < ts' \<and> offset w'' < fs) \<or>
            (Returns = Exits 1 \<and> w' = close_both w'' \<and> 0 < ts' \<and> offset w'' < fs))"
    using assms by (intro send_block_inv [OF assms(1), of I]) (auto simp: I_def called_def advanced_def)
  then show ?thesis by (auto simp: I_def)
qed

lemma send_block_ends:
  assumes "send_block fs evs ts w = (e, w', evs')"
  shows "e = Returns \<or> e = Unfinished \<or> e = Exits 1"
proof -
  define I where "I = (\<lambda>(t::int) (v::worker). True)"
  have "\<exists>ts' (w''::worker). I ts' w'' \<and>
           ((e = Returns \<and> w' = w'' \<and> \<not> (0 < ts' \<and> offset w'' < fs)) \<or>
            (e = Unfinished \<and> w' = w'' \<and> evs' = [] \<and> 0 < ts' \<and> offset w'' < fs) \<or>
            (e = Exits 1 \<and> w' = close_both w'' \<and> 0 < ts' \<and> offset w'' < fs))"
    by (rule send_block_inv [OF assms, of I]) (simp_all add: I_def)
  then show ?thesis by auto
qed

lemma send_block_aligned:
  assumes "send_block fs evs ts w = (e, w', evs')" "aligned w" "dest_pos w = offset w"
  shows "aligned w'"
proof -
  define I where "I = (\<lambda>(t::int) (v::worker). aligned v \<and> dest_pos v = offset v)"
  have "\<exists>ts' (w''::worker). I ts' w'' \<and>
           ((e = Returns \<and> w' = w'' \<and> \<not> (0 < ts' \<and> offset w'' < fs)) \<or>
            (e = Unfinished \<and> w' = w'' \<and> evs' = [] \<and> 0 < ts' \<and> offset w'' < fs) \<or>
            (e = Exits 1 \<and> w' = close_both w'' \<and> 0 < ts' \<and> offset w'' < fs))"
    using assms(2,3)
    by (intro send_block_inv [OF assms(1), of I]) (auto simp: I_def called_def advanced_def aligned_def)
  then show ?thesis by (auto simp: I_def close_both_def aligned_def)
qed

declare planned_from.simps [simp del]

lemma planned_from_done: "fs \<le> off \<Longrightarrow> planned_from fs bs n off = []"
  by (simp add: planned_from.simps)

lemma planned_from_step:
  "off < fs \<Longrightarrow> 0 < n * bs \<Longrightarrow>
   planned_from fs bs n off = (off, min bs (fs - off)) # planned_from fs bs n (off + n * bs)"
  by (subst planned_from.simps) simp

lemma seeked_simps:
  "offset (seeked w) = offset w" "dest_offset (seeked w) = dest_offset w"
  "ranges (seeked w) = ranges w" "seeks (seeked w) = seeks w @ [(offset w, dest_offset w)]"
  "writes (seeked w) = writes w" "dest_pos (seeked w) = dest_offset w"
  "calls (seeked w) = calls w" "source_open (seeked w) = source_open w"
  "dest_open (seeked w) = dest_open w"
  by (simp_all add: seeked_def)

lemma stepped_simps:
  "offset (stepped n bs w w1) = to_off_t (size_add (offset w1) (size_mul (n - 1) bs))"
  "dest_offset (stepped n bs w w1) = to_off_t (size_add (dest_offset w1) (size_mul n bs))"
  "ranges (stepped n bs w w1) = ranges w1 @ [(offset w, offset w1 - offset w)]"
  "seeks (stepped n bs w w1) = seeks w1" "writes (stepped n bs w w1) = writes w1"
  "calls (stepped n bs w w1) = calls w1" "source_open (stepped n bs w w1) = source_open w1"
  "dest_open (stepped n bs w w1) = dest_open w1"
  by (simp_all add: stepped_def)

lemma pass_facts:
  assumes fits: "fits fs n bs" and off: "0 \<le> offset w" "offset w < fs"
    and dst: "dest_offset w = offset w"
    and run: "send_block fs evs (to_ssize_t bs) (seeked w) = (Returns, w1, evs')"
  shows "offset w1 = min (offset w + bs) fs"
    and "ranges (stepped n bs w w1) = ranges w @ [(offset w, min bs (fs - offset w))]"
    and "0 \<le> offset (stepped n bs w w1)"
    and "offset (stepped n bs w w1) < fs \<longrightarrow>
           dest_offset (stepped n bs w w1) = offset (stepped n bs w w1)"
    and "planned_from fs bs n (offset (stepped n bs w w1)) = planned_from fs bs n (offset w + n * bs)"
    and "seeks (stepped n bs w w1) = seeks w @ [(offset w, offset w)]"
proof -
  have bs: "to_ssize_t bs = bs" "0 < bs" "0 < n"
    using fits fits_ssize by (simp_all add: fits_def)
  have run': "send_block fs evs bs (seeked w) = (Returns, w1, evs')" using run bs by simp
  have frame: "dest_offset w1 = offset w" "ranges w1 = ranges w"
    "seeks w1 = seeks w @ [(offset w, offset w)]"
    using send_block_frame [OF run'] dst by (simp_all add: seeked_simps)
  show o1: "offset w1 = min (offset w + bs) fs"
    using send_block_offset [OF run'] bs off by (simp add: seeked_simps)
  have o1b: "0 \<le> offset w1" "offset w1 \<le> fs" using o1 off bs by auto
  have o2: "offset (stepped n bs w w1) = offset w1 + (n - 1) * bs"
    using fits_add [OF fits o1b, of "n - 1"] bs by (simp add: stepped_simps)
  have d2: "dest_offset (stepped n bs w w1) = offset w + n * bs"
    using fits_add [OF fits off(1), of n] off bs frame by (simp add: stepped_simps)
  have nb: "n * bs = bs + (n - 1) * bs" by (simp add: algebra_simps)
  have nn: "0 \<le> (n - 1) * bs" using bs by simp
  show "ranges (stepped n bs w w1) = ranges w @ [(offset w, min bs (fs - offset w))]"
    using o1 frame by (auto simp: stepped_simps min_def)
  show "0 \<le> offset (stepped n bs w w1)" using o2 o1b nn by linarith
  show "offset (stepped n bs w w1) < fs \<longrightarrow>
           dest_offset (stepped n bs w w1) = offset (stepped n bs w w1)"
  proof
    assume lt: "offset (stepped n bs w w1) < fs"
    then have "offset w1 < fs" using o2 nn by linarith
    then have "offset w1 = offset w + bs" using o1 by (auto simp: min_def split: if_splits)
    then show "dest_offset (stepped n bs w w1) = offset (stepped n bs w w1)"
      using o2 d2 nb by linarith
  qed
  show "planned_from fs bs n (offset (stepped n bs w w1)) = planned_from fs bs n (offset w + n * bs)"
  proof (cases "offset w + bs \<le> fs")
    case True
    then have "offset w1 = offset w + bs" using o1 by simp
    then have "offset (stepped n bs w w1) = offset w + n * bs" using o2 nb by linarith
    then show ?thesis by simp
  next
    case False
    then have "offset w1 = fs" using o1 by simp
    then have "fs \<le> offset (stepped n bs w w1)" "fs \<le> offset w + n * bs"
      using o2 nn nb False by linarith+
    then show ?thesis by (simp add: planned_from_done)
  qed
  show "seeks (stepped n bs w w1) = seeks w @ [(offset w, offset w)]"
    using frame by (simp add: stepped_simps)
qed

lemma copy_loop_ranges:
  assumes "fits fs n bs"
  shows "0 \<le> offset w \<Longrightarrow> (offset w < fs \<longrightarrow> dest_offset w = offset w) \<Longrightarrow>
         copy_loop fuel fs n bs evs w = (e, w') \<Longrightarrow>
         (\<exists>rest. ranges w @ planned_from fs bs n (offset w) = ranges w' @ rest) \<and>
         (e = Returns \<longrightarrow> ranges w' = ranges w @ planned_from fs bs n (offset w))"
proof (induction fuel arbitrary: w evs)
  case 0
  show ?case
  proof (cases "offset w < fs")
    case False
    then show ?thesis using 0 by (auto simp: copy_loop_done planned_from_done close_both_def)
  next
    case True
    then have "\<not> lseek_fails (dest_offset w)" using 0 by (simp add: lseek_fails_def)
    then show ?thesis using 0 True by (auto simp: copy_loop_0)
  qed
next
  case (Suc fuel)
  show ?case
  proof (cases "offset w < fs")
    case False
    then show ?thesis using Suc.prems by (auto simp: copy_loop_done planned_from_done close_both_def)
  next
    case True
    then have ok: "\<not> lseek_fails (dest_offset w)" and dst: "dest_offset w = offset w"
      using Suc.prems by (simp_all add: lseek_fails_def)
    obtain e1 w1 evs1 where sb: "send_block fs evs (to_ssize_t bs) (seeked w) = (e1, w1, evs1)"
      by (metis prod_cases3)
    note unfold = copy_loop_Suc [OF True ok sb, of fuel n]
    show ?thesis
    proof (cases "e1 = Returns")
      case False
      then have "e = e1" "w' = w1" using unfold Suc.prems by simp_all
      moreover have "ranges w1 = ranges w" using send_block_frame [OF sb] by (simp add: seeked_simps)
      ultimately show ?thesis using False by auto
    next
      case Ret: True
      let ?w2 = "stepped n bs w w1"
      have sb': "send_block fs evs (to_ssize_t bs) (seeked w) = (Returns, w1, evs1)"
        using sb Ret by simp
      note pf = pass_facts [OF assms Suc.prems(1) True dst sb']
      have rec: "copy_loop fuel fs n bs evs1 ?w2 = (e, w')" using unfold Ret Suc.prems by simp
      have IH: "(\<exists>rest. ranges ?w2 @ planned_from fs bs n (offset ?w2) = ranges w' @ rest) \<and>
         (e = Returns \<longrightarrow> ranges w' = ranges ?w2 @ planned_from fs bs n (offset ?w2))"
        by (rule Suc.IH [OF pf(3) pf(4) rec])
      have pl: "planned_from fs bs n (offset w) =
                  (offset w, min bs (fs - offset w)) # planned_from fs bs n (offset ?w2)"
        using planned_from_step [OF True fits_pos [OF assms]] pf(5) by simp
      show ?thesis using IH pl pf(2) by simp
    qed
  qed
qed

lemma fits_mul:
  assumes "fits fs n bs" "0 \<le> k" "k \<le> n"
  shows "to_off_t (size_mul k bs) = k * bs"
proof -
  have "0 \<le> fs" using assms(1) by (simp add: fits_def)
  then have "to_off_t (size_add 0 (size_mul k bs)) = 0 + k * bs"
    using assms by (intro fits_add [where fs = fs and n = n]) simp_all
  moreover have "size_add 0 (size_mul k bs) = size_mul k bs"
    by (simp add: size_add_def size_mul_def to_size_t_def)
  ultimately show ?thesis by simp
qed

lemma moves_Cons:
  "moves (Moved k # evs) = Suc (moves evs)" "moves (Failed e # evs) = moves evs"
  "moves (Nothing # evs) = moves evs" "moves [] = 0"
  by (simp_all add: moves_def)

lemma send_block_total:
  "\<forall>ev \<in> set evs. harmless ev \<Longrightarrow> 0 \<le> offset w \<Longrightarrow>
   nat (min ts (fs - offset w)) \<le> moves evs \<Longrightarrow>
   \<exists>w' evs'. send_block fs evs ts w = (Returns, w', evs') \<and> (\<forall>ev \<in> set evs'. harmless ev) \<and>
      offset w \<le> offset w' \<and> moves evs \<le> moves evs' + nat (offset w' - offset w)"
proof (induction evs arbitrary: ts w)
  case Nil
  then have "\<not> (0 < ts \<and> offset w < fs)" by (auto simp: moves_Cons)
  then show ?case by (simp add: send_block_stop)
next
  case (Cons ev evs)
  show ?case
  proof (cases "0 < ts \<and> offset w < fs")
    case False
    then show ?thesis using Cons.prems by (simp add: send_block_stop)
  next
    case True
    then have go: "0 < ts" "offset w < fs" by simp_all
    have h: "harmless ev" "\<forall>ev \<in> set evs. harmless ev" using Cons.prems by simp_all
    show ?thesis
    proof (cases ev)
      case (Moved k)
      define m where "m = max 1 (min ts (fs - offset w) - int k)"
      have m: "0 < m" "m \<le> ts" "m \<le> fs - offset w" using go by (auto simp: m_def)
      have sf: "sendfile fs ts ev w = (m, advanced m w)"
        using go Cons.prems(2) Moved by (simp add: sendfile_def advanced_def m_def Let_def)
      have step: "send_block fs (ev # evs) ts w = send_block fs evs (ts - m) (advanced m w)"
        using go sf m by (simp add: send_block.simps)
      have o: "offset (advanced m w) = offset w + m" by (simp add: advanced_def)
      have "nat (min (ts - m) (fs - offset (advanced m w))) \<le> moves evs"
        using Cons.prems(3) m o Moved by (simp add: moves_Cons)
      moreover have "0 \<le> offset (advanced m w)" using o m Cons.prems(2) by simp
      ultimately obtain w' evs' where r: "send_block fs evs (ts - m) (advanced m w) = (Returns, w', evs')"
        "\<forall>ev \<in> set evs'. harmless ev" "offset (advanced m w) \<le> offset w'"
        "moves evs \<le> moves evs' + nat (offset w' - offset (advanced m w))"
        using Cons.IH [OF h(2)] by blast
      have "moves (ev # evs) \<le> moves evs' + nat (offset w' - offset w)"
        using r(3,4) o m Moved by (simp add: moves_Cons)
      then show ?thesis using step r o m by auto
    next
      case (Failed e)
      then have e: "e = EINTR \<or> e = EAGAIN" using h by (simp add: harmless_def)
      have sf: "sendfile fs ts ev w = (- 1, called e w)"
        using Cons.prems(2) Failed by (simp add: sendfile_def called_def)
      have en: "errno_now (called e w) = e" by (simp add: called_def)
      have step: "send_block fs (ev # evs) ts w = send_block fs evs ts (called e w)"
        using go sf e en by (auto simp: send_block.simps)
      have o: "offset (called e w) = offset w" by (simp add: called_def)
      have "nat (min ts (fs - offset (called e w))) \<le> moves evs"
        using Cons.prems(3) o Failed by (simp add: moves_Cons)
      moreover have "0 \<le> offset (called e w)" using o Cons.prems(2) by simp
      ultimately obtain w' evs' where r: "send_block fs evs ts (called e w) = (Returns, w', evs')"
        "\<forall>ev \<in> set evs'. harmless ev" "offset (called e w) \<le> offset w'"
        "moves evs \<le> moves evs' + nat (offset w' - offset (called e w))"
        using Cons.IH [OF h(2)] by blast
      then show ?thesis using step o Failed by (auto simp: moves_Cons)
    next
      case Nothing
      then show ?thesis using h by (simp add: harmless_def)
    qed
  qed
qed


lemma copy_loop_total:
  assumes "fits fs n bs"
  shows "0 \<le> offset w \<Longrightarrow> (offset w < fs \<longrightarrow> dest_offset w = offset w) \<Longrightarrow>
         \<forall>ev \<in> set evs. harmless ev \<Longrightarrow> nat (fs - offset w) \<le> moves evs \<Longrightarrow>
         nat (fs - offset w) \<le> fuel \<Longrightarrow>
         \<exists>w'. copy_loop fuel fs n bs evs w = (Returns, w')"
proof (induction fuel arbitrary: w evs)
  case 0
  then have "\<not> offset w < fs" by simp
  then show ?case by (simp add: copy_loop_done)
next
  case (Suc fuel)
  show ?case
  proof (cases "offset w < fs")
    case False
    then show ?thesis by (simp add: copy_loop_done)
  next
    case True
    then have ok: "\<not> lseek_fails (dest_offset w)" and dst: "dest_offset w = offset w"
      using Suc.prems by (simp_all add: lseek_fails_def)
    have bs: "to_ssize_t bs = bs" "0 < bs" "0 < n"
      using assms fits_ssize by (simp_all add: fits_def)
    have "nat (min bs (fs - offset (seeked w))) \<le> moves evs"
      using Suc.prems(4) by (simp add: seeked_simps)
    moreover have "0 \<le> offset (seeked w)" using Suc.prems(1) by (simp add: seeked_simps)
    ultimately obtain w1 evs1 where
      sb: "send_block fs evs bs (seeked w) = (Returns, w1, evs1)"
      and h1: "\<forall>ev \<in> set evs1. harmless ev"
      and mv: "moves evs \<le> moves evs1 + nat (offset w1 - offset (seeked w))"
      using send_block_total [OF Suc.prems(3), of "seeked w" bs fs] by blast
    have sb': "send_block fs evs (to_ssize_t bs) (seeked w) = (Returns, w1, evs1)"
      using sb bs by simp
    let ?w2 = "stepped n bs w w1"
    note pf = pass_facts [OF assms Suc.prems(1) True dst sb']
    have unfold: "copy_loop (Suc fuel) fs n bs evs w = copy_loop fuel fs n bs evs1 ?w2"
      using copy_loop_Suc [OF True ok sb', of fuel n] by simp
    have o1: "offset w1 = min (offset w + bs) fs" by (rule pf(1))
    have o1b: "0 \<le> offset w1" "offset w1 \<le> fs" using o1 Suc.prems(1) True bs by auto
    have o2: "offset ?w2 = offset w1 + (n - 1) * bs"
      using fits_add [OF assms o1b, of "n - 1"] bs by (simp add: stepped_simps)
    have nn: "0 \<le> (n - 1) * bs" using bs by simp
    have adv: "offset w < offset w1" using o1 True bs by auto
    have le: "offset w1 \<le> offset ?w2" using o2 nn by linarith
    have "nat (fs - offset ?w2) \<le> moves evs1"
      using mv Suc.prems(4) le adv by (simp add: seeked_simps)
    moreover have "nat (fs - offset ?w2) \<le> fuel"
      using Suc.prems(5) le adv by linarith
    ultimately have "\<exists>w'. copy_loop fuel fs n bs evs1 ?w2 = (Returns, w')"
      using Suc.IH [OF pf(3) pf(4) h1] by blast
    then show ?thesis using unfold by simp
  qed
qed

lemma close_both_aligned: "aligned (close_both w) = aligned w"
  by (simp add: aligned_def close_both_def)

lemma copy_loop_aligned:
  assumes "fits fs n bs"
  shows "0 \<le> offset w \<Longrightarrow> (offset w < fs \<longrightarrow> dest_offset w = offset w) \<Longrightarrow> aligned w \<Longrightarrow>
         copy_loop fuel fs n bs evs w = (e, w') \<Longrightarrow> aligned w'"
proof (induction fuel arbitrary: w evs)
  case 0
  show ?case
  proof (cases "offset w < fs")
    case False
    then show ?thesis using 0 by (auto simp: copy_loop_done close_both_aligned)
  next
    case True
    then have "\<not> lseek_fails (dest_offset w)" using 0 by (simp add: lseek_fails_def)
    then show ?thesis using 0 True by (auto simp: copy_loop_0)
  qed
next
  case (Suc fuel)
  show ?case
  proof (cases "offset w < fs")
    case False
    then show ?thesis using Suc.prems by (auto simp: copy_loop_done close_both_aligned)
  next
    case True
    then have ok: "\<not> lseek_fails (dest_offset w)" and dst: "dest_offset w = offset w"
      using Suc.prems by (simp_all add: lseek_fails_def)
    obtain e1 w1 evs1 where sb: "send_block fs evs (to_ssize_t bs) (seeked w) = (e1, w1, evs1)"
      by (metis prod_cases3)
    have "aligned (seeked w)" using Suc.prems(3) dst by (simp add: aligned_def seeked_def)
    moreover have "dest_pos (seeked w) = offset (seeked w)" using dst by (simp add: seeked_simps)
    ultimately have a1: "aligned w1" using send_block_aligned [OF sb] by simp
    note unfold = copy_loop_Suc [OF True ok sb, of fuel n]
    show ?thesis
    proof (cases "e1 = Returns")
      case False
      then show ?thesis using unfold Suc.prems a1 by simp
    next
      case Ret: True
      let ?w2 = "stepped n bs w w1"
      have sb': "send_block fs evs (to_ssize_t bs) (seeked w) = (Returns, w1, evs1)"
        using sb Ret by simp
      note pf = pass_facts [OF assms Suc.prems(1) True dst sb']
      have rec: "copy_loop fuel fs n bs evs1 ?w2 = (e, w')" using unfold Ret Suc.prems by simp
      have "aligned ?w2" using a1 by (simp add: aligned_def stepped_simps)
      then show ?thesis by (rule Suc.IH [OF pf(3) pf(4) _ rec])
    qed
  qed
qed

lemma copy_blocks_start:
  assumes "fits fs n bs" "0 \<le> i" "i < n" "src_ok ce" "dst_ok ce"
  shows "\<exists>w. copy_blocks ce fs i n bs = copy_loop (passes ce) fs n bs (events ce) w \<and>
           offset w = i * bs \<and> dest_offset w = i * bs \<and> ranges w = [] \<and> seeks w = [] \<and>
           writes w = [] \<and> calls w = 0"
proof -
  have "to_off_t (size_mul i bs) = i * bs" using fits_mul [OF assms(1,2)] assms(3) by simp
  then show ?thesis using assms(4,5) by (auto simp: copy_blocks_def Let_def)
qed

lemma copy_blocks_no_open:
  "\<not> (src_ok ce \<and> dst_ok ce) \<Longrightarrow>
   fst (copy_blocks ce fs i n bs) = Exits 1 \<and> ranges (snd (copy_blocks ce fs i n bs)) = [] \<and>
   seeks (snd (copy_blocks ce fs i n bs)) = [] \<and> writes (snd (copy_blocks ce fs i n bs)) = [] \<and>
   calls (snd (copy_blocks ce fs i n bs)) = 0"
  by (auto simp: copy_blocks_def Let_def)

lemma copy_loop_seeks:
  assumes "fits fs n bs"
  shows "0 \<le> offset w \<Longrightarrow> (offset w < fs \<longrightarrow> dest_offset w = offset w) \<Longrightarrow>
         copy_loop fuel fs n bs evs w = (e, w') \<Longrightarrow>
         (\<exists>rest. seeks w @ map (\<lambda>(off, len). (off, off)) (planned_from fs bs n (offset w))
                    = seeks w' @ rest)"
proof (induction fuel arbitrary: w evs)
  case 0
  show ?case
  proof (cases "offset w < fs")
    case False
    then show ?thesis using 0 by (auto simp: copy_loop_done planned_from_done close_both_def)
  next
    case True
    then have "\<not> lseek_fails (dest_offset w)" using 0 by (simp add: lseek_fails_def)
    then show ?thesis using 0 True by (auto simp: copy_loop_0)
  qed
next
  case (Suc fuel)
  show ?case
  proof (cases "offset w < fs")
    case False
    then show ?thesis using Suc.prems by (auto simp: copy_loop_done planned_from_done close_both_def)
  next
    case True
    then have ok: "\<not> lseek_fails (dest_offset w)" and dst: "dest_offset w = offset w"
      using Suc.prems by (simp_all add: lseek_fails_def)
    obtain e1 w1 evs1 where sb: "send_block fs evs (to_ssize_t bs) (seeked w) = (e1, w1, evs1)"
      by (metis prod_cases3)
    note unfold = copy_loop_Suc [OF True ok sb, of fuel n]
    have pl: "planned_from fs bs n (offset w) =
                (offset w, min bs (fs - offset w)) # planned_from fs bs n (offset w + n * bs)"
      by (rule planned_from_step [OF True fits_pos [OF assms]])
    have s1: "seeks w1 = seeks w @ [(offset w, offset w)]"
      using send_block_frame [OF sb] dst by (simp add: seeked_simps)
    show ?thesis
    proof (cases "e1 = Returns")
      case False
      then have "w' = w1" using unfold Suc.prems by simp
      then show ?thesis using s1 pl by simp
    next
      case Ret: True
      let ?w2 = "stepped n bs w w1"
      have sb': "send_block fs evs (to_ssize_t bs) (seeked w) = (Returns, w1, evs1)"
        using sb Ret by simp
      note pf = pass_facts [OF assms Suc.prems(1) True dst sb']
      have rec: "copy_loop fuel fs n bs evs1 ?w2 = (e, w')" using unfold Ret Suc.prems by simp
      have IH: "\<exists>rest. seeks ?w2 @ map (\<lambda>(off, len). (off, off)) (planned_from fs bs n (offset ?w2))
                    = seeks w' @ rest"
        by (rule Suc.IH [OF pf(3) pf(4) rec])
      show ?thesis using IH pl pf(5) pf(6) by simp
    qed
  qed
qed

subsection \<open>The bytes of the planned ranges\<close>

lemma range_bytes_Nil: "range_bytes [] = {}"
  by (simp add: range_bytes_def)

lemma range_bytes_Cons: "range_bytes ((off, len) # rs) = {off ..< off + len} \<union> range_bytes rs"
  by (simp add: range_bytes_def)

lemma div_shift:
  fixes c bs n :: int
  assumes "0 < bs"
  shows "(c - n * bs) div bs = c div bs - n"
proof -
  have "(c + (- n) * bs) div bs = (- n) + c div bs"
    using assms by (intro div_mult_self1) simp
  then show ?thesis by simp
qed

lemma le_div_iff:
  fixes c bs n :: int
  assumes "0 < bs"
  shows "n * bs \<le> c \<longleftrightarrow> n \<le> c div bs"
proof
  define q r where "q = c div bs" and "r = c mod bs"
  have c: "c = q * bs + r" by (simp add: q_def r_def)
  have r: "0 \<le> r" "r < bs" using assms by (simp_all add: r_def)
  { assume "n \<le> c div bs"
    then have "n * bs \<le> q * bs" using assms by (simp add: q_def mult_right_mono)
    then show "n * bs \<le> c" using c r by linarith }
  { assume "n * bs \<le> c"
    then have "n * bs < (q + 1) * bs" using c r by (simp add: algebra_simps)
    then have "n < q + 1" using assms by (simp add: mult_less_cancel_right_pos)
    then show "n \<le> c div bs" by (simp add: q_def) }
qed

lemma block_index_shift:
  fixes c bs n :: int
  assumes "0 < bs" "0 < n" "0 \<le> c"
  shows "(c div bs) mod n = 0 \<longleftrightarrow> c < bs \<or> (n * bs \<le> c \<and> ((c - n * bs) div bs) mod n = 0)"
proof -
  define q where "q = c div bs"
  have q0: "0 \<le> q" using assms by (simp add: q_def pos_imp_zdiv_nonneg_iff)
  have small: "c < bs \<longleftrightarrow> q = 0"
    using assms by (auto simp: q_def zdiv_eq_0_iff)
  have big: "n * bs \<le> c \<longleftrightarrow> n \<le> q"
    using le_div_iff [OF assms(1)] by (simp add: q_def)
  have shift: "(c - n * bs) div bs = q - n"
    using div_shift [OF assms(1)] by (simp add: q_def)
  have "q mod n = 0 \<longleftrightarrow> q = 0 \<or> (n \<le> q \<and> (q - n) mod n = 0)"
  proof
    assume z: "q mod n = 0"
    show "q = 0 \<or> (n \<le> q \<and> (q - n) mod n = 0)"
    proof (cases "q < n")
      case True
      then have "q mod n = q" using q0 by simp
      then show ?thesis using z by simp
    next
      case False
      then show ?thesis using z by simp
    qed
  next
    assume "q = 0 \<or> (n \<le> q \<and> (q - n) mod n = 0)"
    then show "q mod n = 0" by auto
  qed
  then show ?thesis using small big shift by (simp add: q_def)
qed

lemma range_bytes_planned_from:
  "0 < bs \<Longrightarrow> 0 < n \<Longrightarrow>
   range_bytes (planned_from fs bs n off)
     = {b. off \<le> b \<and> b < fs \<and> ((b - off) div bs) mod n = 0}"
proof (induction fs bs n off rule: planned_from.induct)
  case (1 fs bs n off)
  have pos: "0 < n * bs" using "1.prems" by simp
  show ?case
  proof (cases "off < fs")
    case False
    then show ?thesis by (auto simp: planned_from_done range_bytes_Nil)
  next
    case True
    have IH: "range_bytes (planned_from fs bs n (off + n * bs))
        = {b. off + n * bs \<le> b \<and> b < fs \<and> ((b - (off + n * bs)) div bs) mod n = 0}"
      by (rule "1.IH" [OF conjI [OF True pos] "1.prems"])
    have "range_bytes (planned_from fs bs n off)
        = {off ..< off + min bs (fs - off)} \<union> range_bytes (planned_from fs bs n (off + n * bs))"
      by (simp add: planned_from_step [OF True pos] range_bytes_Cons)
    also have "\<dots> = {b. off \<le> b \<and> b < fs \<and> ((b - off) div bs) mod n = 0}"
    proof (rule set_eqI)
      fix b
      define c where "c = b - off"
      have sh: "b - (off + n * bs) = c - n * bs" by (simp add: c_def)
      have e: "off + n * bs \<le> b \<longleftrightarrow> n * bs \<le> c" unfolding c_def by linarith
      have l: "b \<in> {off ..< off + min bs (fs - off)} \<longleftrightarrow> 0 \<le> c \<and> c < bs \<and> b < fs"
        unfolding c_def atLeastLessThan_iff min_def by (cases "bs \<le> fs - off") (simp, linarith, simp, linarith)
      have r: "b \<in> range_bytes (planned_from fs bs n (off + n * bs))
          \<longleftrightarrow> n * bs \<le> c \<and> b < fs \<and> ((c - n * bs) div bs) mod n = 0"
        unfolding IH mem_Collect_eq sh e ..
      have t: "b \<in> {b. off \<le> b \<and> b < fs \<and> ((b - off) div bs) mod n = 0}
          \<longleftrightarrow> 0 \<le> c \<and> b < fs \<and> (c div bs) mod n = 0"
        unfolding c_def mem_Collect_eq by simp
      show "b \<in> {off ..< off + min bs (fs - off)} \<union> range_bytes (planned_from fs bs n (off + n * bs))
          \<longleftrightarrow> b \<in> {b. off \<le> b \<and> b < fs \<and> ((b - off) div bs) mod n = 0}"
      proof (cases "0 \<le> c")
        case False
        then have "\<not> n * bs \<le> c" using pos by linarith
        then show ?thesis unfolding Un_iff l r t using False by simp
      next
        case True
        have key: "(c div bs) mod n = 0 \<longleftrightarrow>
            c < bs \<or> (n * bs \<le> c \<and> ((c - n * bs) div bs) mod n = 0)"
          by (rule block_index_shift [OF "1.prems" True])
        show ?thesis unfolding Un_iff l r t key using True by blast
      qed
    qed
    finally show ?thesis .
  qed
qed



lemma range_bytes_planned_ranges:
  assumes "0 < bs" "0 < n" "0 \<le> i" "i < n"
  shows "range_bytes (planned_ranges fs bs n i) = {b. 0 \<le> b \<and> b < fs \<and> (b div bs) mod n = i}"
proof (rule set_eqI)
  fix b
  have sh: "(b - i * bs) div bs = b div bs - i" by (rule div_shift [OF assms(1)])
  have le: "i * bs \<le> b \<longleftrightarrow> i \<le> b div bs" by (rule le_div_iff [OF assms(1)])
  have im: "i mod n = i" using assms by simp
  have m: "(b div bs - i) mod n = 0 \<longleftrightarrow> (b div bs) mod n = i"
  proof
    assume "(b div bs - i) mod n = 0"
    then have "n dvd (b div bs - i)" by (simp add: mod_eq_0_iff_dvd)
    then have "(b div bs) mod n = i mod n" by (simp add: mod_eq_dvd_iff)
    then show "(b div bs) mod n = i" using im by simp
  next
    assume "(b div bs) mod n = i"
    then have "(b div bs) mod n = i mod n" using im by simp
    then have "n dvd (b div bs - i)" by (simp add: mod_eq_dvd_iff)
    then show "(b div bs - i) mod n = 0" by (simp add: mod_eq_0_iff_dvd)
  qed
  have q: "(b div bs) mod n = i \<Longrightarrow> 0 \<le> b \<Longrightarrow> i \<le> b div bs"
  proof -
    assume a: "(b div bs) mod n = i" "0 \<le> b"
    have "0 \<le> b div bs" using a(2) assms(1) by (simp add: pos_imp_zdiv_nonneg_iff)
    then have "(b div bs) mod n \<le> b div bs" by (rule zmod_le_nonneg_dividend)
    then show ?thesis using a by simp
  qed
  have nn: "i * bs \<le> b \<Longrightarrow> 0 \<le> b"
  proof -
    assume "i * bs \<le> b"
    moreover have "0 \<le> i * bs" using assms by simp
    ultimately show ?thesis by linarith
  qed
  have "b \<in> range_bytes (planned_ranges fs bs n i)
      \<longleftrightarrow> i * bs \<le> b \<and> b < fs \<and> ((b - i * bs) div bs) mod n = 0"
    unfolding planned_ranges_def range_bytes_planned_from [OF assms(1,2)] by simp
  also have "\<dots> \<longleftrightarrow> i * bs \<le> b \<and> b < fs \<and> (b div bs) mod n = i"
    unfolding sh m ..
  also have "\<dots> \<longleftrightarrow> 0 \<le> b \<and> b < fs \<and> (b div bs) mod n = i"
    using le q nn by blast
  finally show "b \<in> range_bytes (planned_ranges fs bs n i)
      \<longleftrightarrow> b \<in> {b. 0 \<le> b \<and> b < fs \<and> (b div bs) mod n = i}"
    by simp
qed

subsection \<open>The whole worker\<close>

lemma copy_blocks_planned:
  assumes "0 \<le> worker_index" "worker_index < worker_count" "0 < bs" "0 \<le> fs"
    and "fs + worker_count * bs < 2 ^ 63"
  shows "(fst (copy_blocks ce fs worker_index worker_count bs) = Returns \<longrightarrow>
            ranges (snd (copy_blocks ce fs worker_index worker_count bs))
              = planned_ranges fs bs worker_count worker_index)
       \<and> (\<exists>rest. planned_ranges fs bs worker_count worker_index
              = ranges (snd (copy_blocks ce fs worker_index worker_count bs)) @ rest)
       \<and> (src_ok ce \<and> dst_ok ce \<and> (\<forall>ev \<in> set (events ce). harmless ev)
            \<and> nat fs \<le> moves (events ce) \<and> nat fs \<le> passes ce \<longrightarrow>
            fst (copy_blocks ce fs worker_index worker_count bs) = Returns)"
proof -
  have fits: "fits fs worker_count bs" using assms by (simp add: fits_def)
  show ?thesis
  proof (cases "src_ok ce \<and> dst_ok ce")
    case False
    then show ?thesis using copy_blocks_no_open [OF False] by auto
  next
    case True
    then obtain w where w: "copy_blocks ce fs worker_index worker_count bs
          = copy_loop (passes ce) fs worker_count bs (events ce) w"
      "offset w = worker_index * bs" "dest_offset w = worker_index * bs" "ranges w = []"
      using copy_blocks_start [OF fits assms(1,2)] by blast
    have o: "0 \<le> offset w" using w assms by simp
    have d: "offset w < fs \<longrightarrow> dest_offset w = offset w" using w by simp
    obtain e w' where r: "copy_loop (passes ce) fs worker_count bs (events ce) w = (e, w')"
      by (cases "copy_loop (passes ce) fs worker_count bs (events ce) w")
    note rg = copy_loop_ranges [OF fits o d r]
    have tot: "(\<forall>ev \<in> set (events ce). harmless ev) \<Longrightarrow> nat fs \<le> moves (events ce) \<Longrightarrow>
         nat fs \<le> passes ce \<Longrightarrow> e = Returns"
    proof -
      assume a: "\<forall>ev \<in> set (events ce). harmless ev" "nat fs \<le> moves (events ce)"
        "nat fs \<le> passes ce"
      have "nat (fs - offset w) \<le> nat fs" using o by simp
      then have "nat (fs - offset w) \<le> moves (events ce)" "nat (fs - offset w) \<le> passes ce"
        using a by simp_all
      then show "e = Returns" using copy_loop_total [OF fits o d a(1), of "passes ce"] r by auto
    qed
    show ?thesis using rg tot w r by (auto simp: planned_ranges_def)
  qed
qed

lemma moved_bytes_append:
  "moved_bytes (ws @ [(src, dst, len)]) = moved_bytes ws \<union> {src ..< src + len}"
  by (auto simp: moved_bytes_def)

lemma send_block_moved_bytes:
  assumes "send_block fs evs ts w = (e, w', evs')"
  shows "moved_bytes (writes w') = moved_bytes (writes w) \<union> {offset w ..< offset w'}
       \<and> offset w \<le> offset w'"
proof -
  define I where "I = (\<lambda>(t::int) (v::worker).
      moved_bytes (writes v) = moved_bytes (writes w) \<union> {offset w ..< offset v}
      \<and> offset w \<le> offset v)"
  have adv: "\<And>ts v n. I ts v \<Longrightarrow> 0 < n \<Longrightarrow> I (ts - n) (advanced n v)"
  proof -
    fix ts :: int and v :: worker and n :: int
    assume i: "I ts v" and n: "0 < n"
    have "{offset w ..< offset v} \<union> {offset v ..< offset v + n} = {offset w ..< offset v + n}"
      using i n by (intro ivl_disj_un_two) (simp_all add: I_def)
    then show "I (ts - n) (advanced n v)"
      using i n by (simp add: I_def advanced_def moved_bytes_append Un_assoc)
  qed
  have "\<exists>ts' (w''::worker). I ts' w'' \<and>
           ((e = Returns \<and> w' = w'' \<and> \<not> (0 < ts' \<and> offset w'' < fs)) \<or>
            (e = Unfinished \<and> w' = w'' \<and> evs' = [] \<and> 0 < ts' \<and> offset w'' < fs) \<or>
            (e = Exits 1 \<and> w' = close_both w'' \<and> 0 < ts' \<and> offset w'' < fs))"
  proof (rule send_block_inv [OF assms, of I])
    show "I ts w" by (simp add: I_def)
  next
    fix ts :: int and v :: worker and err
    assume "I ts v"
    then show "I ts (called err v)" by (simp add: I_def called_def)
  next
    fix ts :: int and v :: worker and n :: int
    assume "I ts v" "0 < n"
    then show "I (ts - n) (advanced n v)" by (rule adv)
  qed
  then show ?thesis by (auto simp: I_def close_both_def)
qed

lemma copy_loop_moved_bytes:
  assumes "fits fs n bs"
  shows "0 \<le> offset w \<Longrightarrow> (offset w < fs \<longrightarrow> dest_offset w = offset w) \<Longrightarrow>
         copy_loop fuel fs n bs evs w = (Returns, w') \<Longrightarrow>
         moved_bytes (writes w')
           = moved_bytes (writes w) \<union> range_bytes (planned_from fs bs n (offset w))"
proof (induction fuel arbitrary: w evs)
  case 0
  show ?case
  proof (cases "offset w < fs")
    case False
    then show ?thesis
      using 0 by (auto simp: copy_loop_done planned_from_done close_both_def range_bytes_Nil)
  next
    case True
    then have "\<not> lseek_fails (dest_offset w)" using 0 by (simp add: lseek_fails_def)
    then show ?thesis using 0 True by (simp add: copy_loop_0)
  qed
next
  case (Suc fuel)
  show ?case
  proof (cases "offset w < fs")
    case False
    then show ?thesis
      using Suc.prems by (auto simp: copy_loop_done planned_from_done close_both_def range_bytes_Nil)
  next
    case True
    then have ok: "\<not> lseek_fails (dest_offset w)" and dst: "dest_offset w = offset w"
      using Suc.prems by (simp_all add: lseek_fails_def)
    obtain e1 w1 evs1 where sb: "send_block fs evs (to_ssize_t bs) (seeked w) = (e1, w1, evs1)"
      by (metis prod_cases3)
    note unfold = copy_loop_Suc [OF True ok sb, of fuel n]
    have Ret: "e1 = Returns"
    proof (rule ccontr)
      assume "e1 \<noteq> Returns"
      then have "e1 = Returns" using unfold Suc.prems(3) by simp
      then show False using \<open>e1 \<noteq> Returns\<close> by simp
    qed
    let ?w2 = "stepped n bs w w1"
    have sb': "send_block fs evs (to_ssize_t bs) (seeked w) = (Returns, w1, evs1)"
      using sb Ret by simp
    note pf = pass_facts [OF assms Suc.prems(1) True dst sb']
    have rec: "copy_loop fuel fs n bs evs1 ?w2 = (Returns, w')" using unfold Ret Suc.prems by simp
    have IH: "moved_bytes (writes w')
           = moved_bytes (writes ?w2) \<union> range_bytes (planned_from fs bs n (offset ?w2))"
      by (rule Suc.IH [OF pf(3) pf(4) rec])
    have pl: "planned_from fs bs n (offset w) =
                (offset w, min bs (fs - offset w)) # planned_from fs bs n (offset ?w2)"
      using planned_from_step [OF True fits_pos [OF assms]] pf(5) by simp
    have "offset w1 = offset w + min bs (fs - offset w)" using pf(1) by (simp add: min_def)
    then have m1: "moved_bytes (writes w1)
        = moved_bytes (writes w) \<union> {offset w ..< offset w + min bs (fs - offset w)}"
      using send_block_moved_bytes [OF sb] by (simp add: seeked_simps)
    show ?thesis
      unfolding IH pl range_bytes_Cons stepped_simps m1 by (simp add: Un_assoc)
  qed
qed

subsection \<open>The command line\<close>

lemma block_size_of_shift_range:
  assumes "6 \<le> s" "s \<le> 20"
  shows "block_size_of_shift s = Some (65536 * 2 ^ nat (s - 6))"
proof -
  define k where "k = nat (s - 6)"
  have k: "k \<le> 14" "s - 6 = int k" using assms by (simp_all add: k_def)
  have p14: "(2::int) ^ k \<le> 2 ^ 14" using k(1) by (intro power_increasing) simp_all
  have p0: "(0::int) < 2 ^ k" by simp
  have lo: "- 2147483648 \<le> (2::int) ^ k" "- 2147483648 \<le> 65536 * (2::int) ^ k"
    using p0 by linarith+
  have shl: "int_shl 1 (s - 6) = Some (2 ^ k)"
    using k p14 lo by (simp add: int_shl_def in_int_def INT_MAX_def INT_MIN_def)
  have "65536 * (2::int) ^ k \<le> 65536 * 2 ^ 14" using p14 by simp
  then have mul: "int_mul (64 * 1024) (2 ^ k) = Some (65536 * 2 ^ k)"
    using lo by (simp add: int_mul_def in_int_def INT_MAX_def INT_MIN_def)
  have "to_size_t (65536 * 2 ^ k) = 65536 * 2 ^ k"
    using p0 \<open>65536 * (2::int) ^ k \<le> 65536 * 2 ^ 14\<close> by (intro to_size_t_id) simp_all
  then show ?thesis using shl mul by (simp add: block_size_of_shift_def k_def)
qed


subsection \<open>Forking the workers\<close>

declare spawn.simps [simp del]

lemma spawn_stop: "nprocs \<le> i \<Longrightarrow> spawn env fs nprocs bs i kids = (True, kids)"
  by (simp add: spawn.simps)

lemma spawn_fork_fails:
  "i < nprocs \<Longrightarrow> \<not> fork_ok env i \<Longrightarrow> spawn env fs nprocs bs i kids = (False, kids)"
  by (simp add: spawn.simps)

lemma spawn_fork:
  "i < nprocs \<Longrightarrow> fork_ok env i \<Longrightarrow>
   spawn env fs nprocs bs i kids
     = spawn env fs nprocs bs (i + 1) (kids @ [child_process (child env i) fs i nprocs bs])"
  by (subst spawn.simps) simp

lemma spawn_all_ok:
  "\<forall>j. fork_ok env j \<Longrightarrow>
   spawn env fs nprocs bs i kids
     = (True, kids @ map (\<lambda>j. child_process (child env j) fs j nprocs bs) [i .. nprocs - 1])"
proof (induction env fs nprocs bs i kids rule: spawn.induct)
  case (1 env fs nprocs bs i kids)
  show ?case
  proof (cases "i < nprocs")
    case False
    then have "[i .. nprocs - 1] = []" by simp
    then show ?thesis using False by (simp add: spawn_stop)
  next
    case True
    then have up: "[i .. nprocs - 1] = i # [i + 1 .. nprocs - 1]" by (simp add: upto_rec1)
    have ok: "fork_ok env i" using "1.prems" by simp
    have "spawn env fs nprocs bs (i + 1) (kids @ [child_process (child env i) fs i nprocs bs])
        = (True, (kids @ [child_process (child env i) fs i nprocs bs])
             @ map (\<lambda>j. child_process (child env j) fs j nprocs bs) [i + 1 .. nprocs - 1])"
      using "1.IH" True ok "1.prems" by simp
    then show ?thesis using spawn_fork [OF True ok] up by simp
  qed
qed

lemma spawn_children:
  "spawn env fs nprocs bs i kids = (ok, kids') \<Longrightarrow> k \<in> set kids' \<Longrightarrow>
   k \<in> set kids \<or> (\<exists>j. k = child_process (child env j) fs j nprocs bs)"
proof (induction env fs nprocs bs i kids rule: spawn.induct)
  case (1 env fs nprocs bs i kids)
  show ?case
  proof (cases "i < nprocs")
    case False
    then show ?thesis using "1.prems" by (simp add: spawn_stop)
  next
    case True
    show ?thesis
    proof (cases "fork_ok env i")
      case False
      then show ?thesis using True "1.prems" by (simp add: spawn_fork_fails)
    next
      case ok: True
      have "spawn env fs nprocs bs (i + 1) (kids @ [child_process (child env i) fs i nprocs bs])
           = (ok, kids')"
        using spawn_fork [OF True ok] "1.prems"(1) by simp
      then have "k \<in> set (kids @ [child_process (child env i) fs i nprocs bs])
          \<or> (\<exists>j. k = child_process (child env j) fs j nprocs bs)"
        using "1.IH" True ok "1.prems"(2) by simp
      then show ?thesis by auto
    qed
  qed
qed

lemma copy_blocks_empty:
  "calls (snd (copy_blocks ce 0 i n bs)) = 0 \<and> writes (snd (copy_blocks ce 0 i n bs)) = []
   \<and> fst (copy_blocks ce 0 i n bs) \<noteq> Unfinished"
proof (cases "src_ok ce \<and> dst_ok ce")
  case False
  then show ?thesis using copy_blocks_no_open [OF False, of 0 i n bs] by simp
next
  case True
  define w where "w = \<lparr>offset = to_off_t (size_mul i bs), dest_offset = to_off_t (size_mul i bs),
      dest_pos = 0, errno_now = errno0 ce, source_open = True, dest_open = True,
      seeks = [], writes = [], ranges = [], calls = 0\<rparr>"
  have cb: "copy_blocks ce 0 i n bs = copy_loop (passes ce) 0 n bs (events ce) w"
    using True by (simp add: copy_blocks_def Let_def w_def)
  show ?thesis
  proof (cases "offset w < 0")
    case neg: True
    then have "lseek_fails (dest_offset w)" by (simp add: lseek_fails_def w_def)
    then have "copy_loop (passes ce) 0 n bs (events ce) w = (Exits 1, close_both w)"
      using neg by (simp add: copy_loop_seek_fails)
    then show ?thesis using cb by (simp add: close_both_def w_def)
  next
    case False
    then have "copy_loop (passes ce) 0 n bs (events ce) w = (Returns, close_both w)"
      by (simp add: copy_loop_done)
    then show ?thesis using cb by (simp add: close_both_def w_def)
  qed
qed

lemma child_process_empty:
  "calls (snd (child_process ce 0 i n bs)) = 0 \<and> writes (snd (child_process ce 0 i n bs)) = []
   \<and> fst (child_process ce 0 i n bs) \<noteq> Unfinished"
  using copy_blocks_empty [of ce i n bs]
  by (cases "copy_blocks ce 0 i n bs"; cases "fst (copy_blocks ce 0 i n bs)")
     (auto simp: child_process_def)

lemma written_length_none:
  "\<forall>k \<in> set kids. writes (snd k) = [] \<Longrightarrow> written_length kids = 0"
proof -
  assume "\<forall>k \<in> set kids. writes (snd k) = []"
  then have c: "concat (map (\<lambda>k. writes (snd k)) kids) = []" by simp
  show ?thesis unfolding written_length_def c by simp
qed

subsection \<open>Defaults and the copy without workers\<close>

lemma parse_opts_block:
  "parse_opts wd os st = Done st' \<Longrightarrow> (shift st \<noteq> 0 \<longrightarrow> block st \<noteq> None) \<Longrightarrow>
   (shift st' \<noteq> 0 \<longrightarrow> block st' \<noteq> None)"
proof (induction wd os st rule: parse_opts.induct)
  case (1 wd st)
  then show ?case by simp
next
  case (2 wd v rest st)
  then show ?case by simp
next
  case (3 wd v rest st)
  then show ?case by (auto split: option.splits)
next
  case (4 wd rest st)
  then show ?case by (simp split: if_splits)
next
  case (5 wd rest st)
  then show ?case by simp
qed

lemma block_size_of_shift_10: "block_size_of_shift 10 = Some 1048576"
  using block_size_of_shift_range [of 10] by simp

lemma resolve_given:
  assumes "procs st \<noteq> 0" "shift st \<noteq> 0 \<longrightarrow> block st \<noteq> None"
  shows "\<exists>st1 b. resolve wd st = Done st1 \<and> procs st1 = procs st \<and> block st1 = Some b
           \<and> optimize st1 = optimize st"
  using assms by (cases "shift st = 0") (auto simp: resolve_def block_size_of_shift_10)

lemma perform_copy_no_workers:
  assumes "stat_size env = Some fs" "creat_ok env" "np \<le> 0"
  shows "perform_copy env np bs r =
     \<lparr>parent = Done (r\<lparr>num_processes := np, block_size := bs,
                       elapsed_time := elapsed (start_time env) (end_time env)\<rparr>),
      children = [], dest_length = Some 0\<rparr>"
  using assms by (simp add: perform_copy_def spawn_stop written_length_def)

subsection \<open>Failures of the transfer\<close>

lemma sendfile_nothing_moved:
  assumes "0 < ts" "offset w < fs" "sendfile fs ts ev w = (r, w1)" "r \<le> 0"
  shows "offset w1 = offset w \<and> dest_pos w1 = dest_pos w \<and> writes w1 = writes w
       \<and> calls w1 = Suc (calls w)"
  using assms(1,2)
proof (cases rule: sendfile_cases [where ev = ev])
  case (fail r' err)
  then have "w1 = called err w" using assms(3) by simp
  then show ?thesis by (simp add: called_def)
next
  case (moved n)
  then have False using assms(3,4) by simp
  then show ?thesis ..
qed

lemma send_block_nothing_moved:
  assumes "0 < ts" "offset w < fs" "sendfile fs ts ev w = (r, w1)" "r \<le> 0"
  shows "send_block fs (ev # evs) ts w =
           (if errno_now w1 = EINTR \<or> errno_now w1 = EAGAIN then send_block fs evs ts w1
            else (Exits 1, close_both w1, evs))"
  using assms by (simp add: send_block.simps)

lemma send_block_retries:
  assumes "0 < ts" "0 \<le> offset w" "offset w < fs" "e = EINTR \<or> e = EAGAIN"
  shows "send_block fs (replicate k (Failed e) @ evs) ts w
           = send_block fs evs ts
               (w\<lparr>calls := calls w + k, errno_now := (if k = 0 then errno_now w else e)\<rparr>)"
  using assms(2,3)
proof (induction k arbitrary: w)
  case 0
  then show ?case by simp
next
  case (Suc k)
  have sf: "sendfile fs ts (Failed e) w = (- 1, called e w)"
    using Suc.prems by (simp add: sendfile_def called_def)
  have "send_block fs (Failed e # replicate k (Failed e) @ evs) ts w
      = send_block fs (replicate k (Failed e) @ evs) ts (called e w)"
    using assms(1,4) Suc.prems sf by (auto simp: send_block.simps called_def)
  also have "\<dots> = send_block fs evs ts
      ((called e w)\<lparr>calls := calls (called e w) + k,
                    errno_now := (if k = 0 then errno_now (called e w) else e)\<rparr>)"
    using Suc.prems by (intro Suc.IH) (simp_all add: called_def)
  also have "(called e w)\<lparr>calls := calls (called e w) + k,
                    errno_now := (if k = 0 then errno_now (called e w) else e)\<rparr>
      = w\<lparr>calls := calls w + Suc k, errno_now := (if Suc k = 0 then errno_now w else e)\<rparr>"
    by (simp add: called_def)
  finally show ?case by simp
qed




subsection \<open>The orchestrator\<close>

lemma spawn_range_ok:
  "\<forall>j. i \<le> j \<and> j < nprocs \<longrightarrow> fork_ok env j \<Longrightarrow>
   spawn env fs nprocs bs i kids
     = (True, kids @ map (\<lambda>j. child_process (child env j) fs j nprocs bs) [i .. nprocs - 1])"
proof (induction env fs nprocs bs i kids rule: spawn.induct)
  case (1 env fs nprocs bs i kids)
  show ?case
  proof (cases "i < nprocs")
    case False
    then have "[i .. nprocs - 1] = []" by simp
    then show ?thesis using False by (simp add: spawn_stop)
  next
    case True
    then have up: "[i .. nprocs - 1] = i # [i + 1 .. nprocs - 1]" by (simp add: upto_rec1)
    have ok: "fork_ok env i" using "1.prems" True by simp
    have "spawn env fs nprocs bs (i + 1) (kids @ [child_process (child env i) fs i nprocs bs])
        = (True, (kids @ [child_process (child env i) fs i nprocs bs])
             @ map (\<lambda>j. child_process (child env j) fs j nprocs bs) [i + 1 .. nprocs - 1])"
      using "1.IH" True ok "1.prems" by simp
    then show ?thesis using spawn_fork [OF True ok] up by simp
  qed
qed

lemma spawn_range_fails:
  "\<exists>j. i \<le> j \<and> j < nprocs \<and> \<not> fork_ok env j \<Longrightarrow> fst (spawn env fs nprocs bs i kids) = False"
proof (induction env fs nprocs bs i kids rule: spawn.induct)
  case (1 env fs nprocs bs i kids)
  then obtain j where j: "i \<le> j" "j < nprocs" "\<not> fork_ok env j" by blast
  then have lt: "i < nprocs" by simp
  show ?case
  proof (cases "fork_ok env i")
    case False
    then show ?thesis using lt by (simp add: spawn_fork_fails)
  next
    case True
    then have "i \<noteq> j" using j by auto
    then have "i + 1 \<le> j" using j(1) by linarith
    then have "\<exists>j. i + 1 \<le> j \<and> j < nprocs \<and> \<not> fork_ok env j" using j(2,3) by blast
    then have "fst (spawn env fs nprocs bs (i + 1)
        (kids @ [child_process (child env i) fs i nprocs bs])) = False"
      using "1.IH" lt True by simp
    then show ?thesis using spawn_fork [OF lt True] by simp
  qed
qed

lemma perform_copy_forked:
  assumes "stat_size env = Some fs" "creat_ok env" "\<forall>j. 0 \<le> j \<and> j < np \<longrightarrow> fork_ok env j"
  shows "perform_copy env np bs res =
     \<lparr>parent = (if \<exists>k \<in> set (map (\<lambda>j. child_process (child env j) fs j np bs) [0 .. np - 1]).
                      fst k = Unfinished
                then Blocked
                else Done (res\<lparr>num_processes := np, block_size := bs,
                                elapsed_time := elapsed (start_time env) (end_time env)\<rparr>)),
      children = map (\<lambda>j. child_process (child env j) fs j np bs) [0 .. np - 1],
      dest_length = Some (written_length
                      (map (\<lambda>j. child_process (child env j) fs j np bs) [0 .. np - 1]))\<rparr>"
  using assms spawn_range_ok [OF assms(3), of fs bs "[]"]
  by (simp add: perform_copy_def)

lemma perform_copy_fork_fails:
  assumes "stat_size env = Some fs" "creat_ok env" "\<exists>j. 0 \<le> j \<and> j < np \<and> \<not> fork_ok env j"
  shows "parent (perform_copy env np bs res) = Exit 1"
proof -
  obtain ok kids where sp: "spawn env fs np bs 0 [] = (ok, kids)"
    by (cases "spawn env fs np bs 0 []")
  then have "ok = False" using spawn_range_fails [OF assms(3), of fs bs "[]"] by simp
  then show ?thesis using assms(1,2) sp by (simp add: perform_copy_def)
qed

lemma perform_copy_setup_fails:
  "stat_size env = None \<or> \<not> creat_ok env \<Longrightarrow> parent (perform_copy env np bs res) = Exit 1"
  by (auto simp: perform_copy_def split: option.splits)

lemma first_block_fatal:
  assumes "fits fs n bs" "0 \<le> i" "i < n" "i * bs < fs" "src_ok ce" "dst_ok ce" "0 < passes ce"
    and "events ce = replicate k (Failed e0) @ Failed e # rest"
    and "e0 = EINTR \<or> e0 = EAGAIN" "e \<noteq> EINTR" "e \<noteq> EAGAIN"
  shows "fst (child_process ce fs i n bs) = Exits 1
       \<and> calls (snd (child_process ce fs i n bs)) = Suc k
       \<and> writes (snd (child_process ce fs i n bs)) = []
       \<and> \<not> source_open (snd (child_process ce fs i n bs))
       \<and> \<not> dest_open (snd (child_process ce fs i n bs))"
proof -
  obtain w where w: "copy_blocks ce fs i n bs = copy_loop (passes ce) fs n bs (events ce) w"
    "offset w = i * bs" "dest_offset w = i * bs" "writes w = []" "calls w = 0"
    using copy_blocks_start [OF assms(1,2,3,5,6)] by blast
  obtain fuel where fuel: "passes ce = Suc fuel" using assms(7) by (cases "passes ce") simp_all
  have lt: "offset w < fs" using w assms(4) by simp
  have nn: "0 \<le> offset w" using w assms(1,2) by (simp add: fits_def)
  have ok: "\<not> lseek_fails (dest_offset w)" using w nn by (simp add: lseek_fails_def)
  have ts: "0 < to_ssize_t bs" using fits_ssize [OF assms(1)] assms(1) by (simp add: fits_def)
  let ?w1 = "(seeked w)\<lparr>calls := calls (seeked w) + k,
      errno_now := (if k = 0 then errno_now (seeked w) else e0)\<rparr>"
  have o1: "offset ?w1 = offset w" by (simp add: seeked_def)
  have "send_block fs (events ce) (to_ssize_t bs) (seeked w)
      = send_block fs (Failed e # rest) (to_ssize_t bs) ?w1"
    unfolding assms(8) using ts nn lt assms(9)
    by (intro send_block_retries) (simp_all add: seeked_simps)
  moreover have sf: "sendfile fs (to_ssize_t bs) (Failed e) ?w1 = (- 1, called e ?w1)"
    using nn o1 by (simp add: sendfile_def called_def)
  moreover have "send_block fs (Failed e # rest) (to_ssize_t bs) ?w1
      = (Exits 1, close_both (called e ?w1), rest)"
    using send_block_nothing_moved [OF ts _ sf, of rest] lt o1 assms(10,11)
    by (simp add: called_def)
  ultimately have sb: "send_block fs (events ce) (to_ssize_t bs) (seeked w)
      = (Exits 1, close_both (called e ?w1), rest)" by simp
  have "copy_loop (Suc fuel) fs n bs (events ce) w = (Exits 1, close_both (called e ?w1))"
    using copy_loop_Suc [OF lt ok sb, of fuel n] by simp
  then have "copy_blocks ce fs i n bs = (Exits 1, close_both (called e ?w1))"
    using w(1) fuel by simp
  then have "child_process ce fs i n bs = (Exits 1, close_both (called e ?w1))"
    by (simp add: child_process_def)
  then show ?thesis using w(4,5) by (simp add: close_both_def called_def seeked_def)
qed

subsection \<open>The sweep of the benchmark search\<close>

declare sweep_block_sizes.simps [simp del]
declare sweep_process_counts.simps [simp del]

lemma perform_copy_parent:
  "parent (perform_copy env np bs res) = Blocked
   \<or> parent (perform_copy env np bs res) = Exit 1
   \<or> parent (perform_copy env np bs res)
        = Done (res\<lparr>num_processes := np, block_size := bs,
                    elapsed_time := elapsed (start_time env) (end_time env)\<rparr>)"
  by (auto simp: perform_copy_def split: option.splits prod.splits bool.splits)

lemma sweep_block_sizes_stop:
  "\<not> (0 \<le> i \<and> i < 5) \<Longrightarrow> sweep_block_sizes wd np i st = (Done (), st)"
  by (subst sweep_block_sizes.simps) (auto simp: block_sizes_def)

lemma sweep_block_sizes_step:
  fixes wd :: world and np :: int
  assumes "0 \<le> i" "i < 5" "run_index st < MAX_RUNS"
  defines "out \<equiv> perform_copy (run wd (length (results st))) np (block_sizes ! nat i)
      \<lparr>num_processes = 0, block_size = 0, elapsed_time = 0, shift_value = 6 + i\<rparr>"
  shows "sweep_block_sizes wd np i st =
     (if \<not> drop_ok wd (length (results st)) then (Exit 1, st)
      else case parent out of
        Done r \<Rightarrow>
          if \<not> unlink_ok wd (length (results st)) then (Exit 1, st\<lparr>copies := copies st @ [out]\<rparr>)
          else sweep_block_sizes wd np (i + 1)
                 (st\<lparr>copies := copies st @ [out], results := results st @ [r]\<rparr>)
      | Exit c \<Rightarrow> (Exit c, st\<lparr>copies := copies st @ [out]\<rparr>)
      | Blocked \<Rightarrow> (Blocked, st\<lparr>copies := copies st @ [out]\<rparr>)
      | Undefined \<Rightarrow> (Undefined, st\<lparr>copies := copies st @ [out]\<rparr>))"
  using assms(1,2,3)
  by (subst sweep_block_sizes.simps) (simp add: block_sizes_def Let_def out_def split: proc.splits)

lemma grid_row_drop:
  assumes "0 \<le> i" "i < 5"
  shows "drop (nat i) (grid_row np) = (np, block_sizes ! nat i, 6 + i) # drop (nat (i + 1)) (grid_row np)"
proof -
  have "i = 0 \<or> i = 1 \<or> i = 2 \<or> i = 3 \<or> i = 4" using assms by linarith
  then show ?thesis
    by (elim disjE) (simp_all add: grid_row_def block_sizes_def)
qed

lemma sweep_block_sizes_spec:
  "k = nat (5 - i) \<Longrightarrow> 0 \<le> i \<Longrightarrow> i \<le> 5 \<Longrightarrow> run_index st + (5 - i) \<le> MAX_RUNS \<Longrightarrow>
   sweep_block_sizes wd np i st = (e, st') \<Longrightarrow>
   (\<exists>new. results st' = results st @ new
       \<and> map settings_of new = take (length new) (drop (nat i) (grid_row np))
       \<and> length new \<le> nat (5 - i)
       \<and> (e = Done () \<longrightarrow> length new = nat (5 - i)))
   \<and> warned st' = warned st
   \<and> (\<forall>c. e = Exit c \<longrightarrow> c = 1) \<and> e \<noteq> Undefined"
proof (induction k arbitrary: i st)
  case 0
  then have "i = 5" by simp
  then have "sweep_block_sizes wd np i st = (Done (), st)" by (simp add: sweep_block_sizes_stop)
  then show ?case using 0 by auto
next
  case (Suc k)
  then have i: "0 \<le> i" "i < 5" by simp_all
  have lt: "run_index st < MAX_RUNS" using Suc.prems i by simp
  define out where "out = perform_copy (run wd (length (results st))) np (block_sizes ! nat i)
      \<lparr>num_processes = 0, block_size = 0, elapsed_time = 0, shift_value = 6 + i\<rparr>"
  note step = sweep_block_sizes_step [OF i lt, of wd np, folded out_def]
  note row = grid_row_drop [OF i, of np]
  show ?case
  proof (cases "drop_ok wd (length (results st))")
    case False
    then have "e = Exit 1" "st' = st" using step Suc.prems(5) by simp_all
    then show ?thesis by simp
  next
    case drop: True
    consider (blocked) "parent out = Blocked" | (exit) "parent out = Exit 1"
      | (returned) "parent out = Done \<lparr>num_processes = np, block_size = block_sizes ! nat i,
            elapsed_time = elapsed (start_time (run wd (length (results st))))
              (end_time (run wd (length (results st)))), shift_value = 6 + i\<rparr>"
      using perform_copy_parent [of "run wd (length (results st))" np "block_sizes ! nat i"
          "\<lparr>num_processes = 0, block_size = 0, elapsed_time = 0, shift_value = 6 + i\<rparr>"]
      by (auto simp: out_def)
    then show ?thesis
    proof cases
      case blocked
      then have "e = Blocked" "st' = st\<lparr>copies := copies st @ [out]\<rparr>"
        using step drop Suc.prems(5) by simp_all
      then show ?thesis by simp
    next
      case exit
      then have "e = Exit 1" "st' = st\<lparr>copies := copies st @ [out]\<rparr>"
        using step drop Suc.prems(5) by simp_all
      then show ?thesis by simp
    next
      case returned
      define r where "r = \<lparr>num_processes = np, block_size = block_sizes ! nat i,
            elapsed_time = elapsed (start_time (run wd (length (results st))))
              (end_time (run wd (length (results st)))), shift_value = 6 + i\<rparr>"
      have pr: "parent out = Done r" using returned by (simp add: r_def)
      have sr: "settings_of r = (np, block_sizes ! nat i, 6 + i)"
        by (simp add: settings_of_def r_def)
      show ?thesis
      proof (cases "unlink_ok wd (length (results st))")
        case False
        then have "e = Exit 1" "st' = st\<lparr>copies := copies st @ [out]\<rparr>"
          using step drop pr Suc.prems(5) by simp_all
        then show ?thesis by simp
      next
        case True
        let ?st1 = "st\<lparr>copies := copies st @ [out], results := results st @ [r]\<rparr>"
        have rec: "sweep_block_sizes wd np (i + 1) ?st1 = (e, st')"
          using step drop pr True Suc.prems(5) by simp
        have k: "k = nat (5 - (i + 1))" using Suc.prems(1) by simp
        have ri: "run_index ?st1 + (5 - (i + 1)) \<le> MAX_RUNS"
          using Suc.prems(4) by (simp add: run_index_def)
        have i1: "0 \<le> i + 1" "i + 1 \<le> 5" using i by simp_all
        from Suc.IH [OF k i1 ri rec]
        obtain new where new: "results st' = results ?st1 @ new"
          "map settings_of new = take (length new) (drop (nat (i + 1)) (grid_row np))"
          "length new \<le> nat (5 - (i + 1))"
          "e = Done () \<longrightarrow> length new = nat (5 - (i + 1))"
          and rest: "warned st' = warned ?st1" "\<forall>c. e = Exit c \<longrightarrow> c = 1" "e \<noteq> Undefined"
          by blast
        have a: "results st' = results st @ (r # new)" using new(1) by simp
        have b: "map settings_of (r # new) = take (length (r # new)) (drop (nat i) (grid_row np))"
          unfolding row using new(2) sr by simp
        have c: "length (r # new) \<le> nat (5 - i)" using new(3) i by simp
        have d: "e = Done () \<longrightarrow> length (r # new) = nat (5 - i)" using new(4) i by auto
        show ?thesis using a b c d rest by (intro conjI exI [of _ "r # new"]) simp_all
      qed
    qed
  qed
qed

lemma sweep_process_counts_stop:
  "6 < p \<Longrightarrow> sweep_process_counts wd C p st = (Done (), st)"
  by (subst sweep_process_counts.simps) simp

lemma sweep_process_counts_step:
  "p \<le> 6 \<Longrightarrow>
   sweep_process_counts wd C p st =
     (case int_mul p C of
        None \<Rightarrow> (Undefined, st)
      | Some np \<Rightarrow>
          (if fst (sweep_block_sizes wd np 0 st) = Done ()
           then sweep_process_counts wd C (p + 1) (snd (sweep_block_sizes wd np 0 st))
           else sweep_block_sizes wd np 0 st))"
  by (subst sweep_process_counts.simps)
     (auto split: option.splits prod.splits proc.splits)

lemma int_mul_Some: "int_mul a b = Some c \<Longrightarrow> c = a * b"
  by (simp add: int_mul_def split: if_splits)

lemma length_grid_row: "length (grid_row np) = 5"
  by (simp add: grid_row_def)

lemma sweep_process_counts_spec:
  "k = nat (7 - p) \<Longrightarrow> 1 \<le> p \<Longrightarrow> p \<le> 7 \<Longrightarrow> run_index st + 5 * (7 - p) \<le> MAX_RUNS \<Longrightarrow>
   sweep_process_counts wd C p st = (e, st') \<Longrightarrow>
   (\<exists>new. results st' = results st @ new
       \<and> map settings_of new
           = take (length new) (concat (map (\<lambda>q. grid_row (C * q)) [p .. 6]))
       \<and> length new \<le> 5 * k
       \<and> (e = Done () \<longrightarrow> length new = 5 * k))
   \<and> warned st' = warned st
   \<and> (\<forall>c. e = Exit c \<longrightarrow> c = 1)"
proof (induction k arbitrary: p st)
  case 0
  then have "6 < p" by simp
  then have "sweep_process_counts wd C p st = (Done (), st)"
    by (rule sweep_process_counts_stop)
  then show ?case using 0 by auto
next
  case (Suc k)
  then have p: "1 \<le> p" "p \<le> 6" by simp_all
  note step = sweep_process_counts_step [OF p(2), of wd C st]
  have up: "[p .. 6] = p # [p + 1 .. 6]" using p by (simp add: upto_rec1)
  show ?case
  proof (cases "int_mul p C")
    case None
    then have "e = Undefined" "st' = st" using step Suc.prems(5) by simp_all
    then show ?thesis by simp
  next
    case (Some np)
    then have np: "np = C * p" using int_mul_Some [of p C np] by (simp add: mult.commute)
    obtain e1 st1 where in1: "sweep_block_sizes wd np 0 st = (e1, st1)"
      by (cases "sweep_block_sizes wd np 0 st")
    have ri0: "run_index st + (5 - 0) \<le> MAX_RUNS" using Suc.prems(4) p by simp
    from sweep_block_sizes_spec [OF _ _ _ ri0 in1, where k = 5]
    obtain new1 where new1: "results st1 = results st @ new1"
      "map settings_of new1 = take (length new1) (grid_row np)"
      "length new1 \<le> 5" "e1 = Done () \<longrightarrow> length new1 = 5"
      and rest1: "warned st1 = warned st" "\<forall>c. e1 = Exit c \<longrightarrow> c = 1"
      by auto
    show ?thesis
    proof (cases "e1 = Done ()")
      case False
      then have "e = e1" "st' = st1" using step Some in1 Suc.prems(5) by simp_all
      moreover have "map settings_of new1
          = take (length new1) (concat (map (\<lambda>q. grid_row (C * q)) [p .. 6]))"
        unfolding up using new1(2,3) np by (simp add: length_grid_row)
      ultimately show ?thesis
        using new1 rest1 False by (intro conjI exI [of _ new1]) simp_all
    next
      case True
      then have rec: "sweep_process_counts wd C (p + 1) st1 = (e, st')"
        using step Some in1 Suc.prems(5) by simp
      have l1: "length new1 = 5" using new1(4) True by simp
      have row: "map settings_of new1 = grid_row np" using new1(2) l1 by (simp add: length_grid_row)
      have k: "k = nat (7 - (p + 1))" using Suc.prems(1) by simp
      have ri: "run_index st1 + 5 * (7 - (p + 1)) \<le> MAX_RUNS"
        using Suc.prems(4) new1(1) l1 by (simp add: run_index_def)
      have p1: "1 \<le> p + 1" "p + 1 \<le> 7" using p by simp_all
      from Suc.IH [OF k p1 ri rec]
      obtain new2 where new2: "results st' = results st1 @ new2"
        "map settings_of new2
           = take (length new2) (concat (map (\<lambda>q. grid_row (C * q)) [p + 1 .. 6]))"
        "length new2 \<le> 5 * k" "e = Done () \<longrightarrow> length new2 = 5 * k"
        and rest2: "warned st' = warned st1" "\<forall>c. e = Exit c \<longrightarrow> c = 1"
        by blast
      have a: "results st' = results st @ (new1 @ new2)" using new1(1) new2(1) by simp
      have b: "map settings_of (new1 @ new2)
          = take (length (new1 @ new2)) (concat (map (\<lambda>q. grid_row (C * q)) [p .. 6]))"
        unfolding up using row new2(2) l1 np by (simp add: length_grid_row)
      have c: "length (new1 @ new2) \<le> 5 * Suc k" using l1 new2(3) by simp
      have d: "e = Done () \<longrightarrow> length (new1 @ new2) = 5 * Suc k" using l1 new2(4) by simp
      show ?thesis
        using a b c d rest1 rest2 by (intro conjI exI [of _ "new1 @ new2"]) simp_all
    qed
  qed
qed

lemma upto_1_6: "[1 .. 6] = [1, 2, 3, 4, 5, 6::int]"
  by (simp add: upto_rec1)

lemma grid_upto: "grid C = concat (map (\<lambda>q. grid_row (C * q)) [1 .. 6])"
  by (simp add: grid_def upto_1_6)

lemma length_grid: "length (grid C) = 30"
  by (simp add: grid_def length_grid_row)

lemma find_optimal_settings_no_memory:
  "\<not> malloc_ok wd \<Longrightarrow>
   find_optimal_settings wd = (Exit 1, \<lparr>results = [], warned = False, copies = []\<rparr>)"
  by (simp add: find_optimal_settings_def)

lemma find_optimal_settings_sweep:
  assumes "malloc_ok wd"
    and "sweep_process_counts wd (nprocs_online wd) 1 \<lparr>results = [], warned = False, copies = []\<rparr>
           = (e, st)"
  shows "snd (find_optimal_settings wd) = st"
    and "fst (find_optimal_settings wd)
           = (case e of Done u \<Rightarrow> Done (report_runs (results st)) | Exit c \<Rightarrow> Exit c
              | Blocked \<Rightarrow> Blocked | Undefined \<Rightarrow> Undefined)"
  using assms by (simp_all add: find_optimal_settings_def split: proc.splits)

lemma find_optimal_settings_spec:
  "length (results (snd (find_optimal_settings wd))) \<le> 30
   \<and> \<not> warned (snd (find_optimal_settings wd))
   \<and> (\<exists>rest. grid (nprocs_online wd)
         = map settings_of (results (snd (find_optimal_settings wd))) @ rest)
   \<and> (\<forall>rep. fst (find_optimal_settings wd) = Done rep \<longrightarrow>
         map settings_of (results (snd (find_optimal_settings wd))) = grid (nprocs_online wd)
         \<and> length (results (snd (find_optimal_settings wd))) = 30
         \<and> rep = report_runs (results (snd (find_optimal_settings wd))))
   \<and> (\<forall>c. fst (find_optimal_settings wd) = Exit c \<longrightarrow> c = 1)"
proof (cases "malloc_ok wd")
  case False
  then show ?thesis by (simp add: find_optimal_settings_no_memory)
next
  case True
  let ?st0 = "\<lparr>results = [], warned = False, copies = []\<rparr> :: sweep"
  obtain e st where sw: "sweep_process_counts wd (nprocs_online wd) 1 ?st0 = (e, st)"
    by (cases "sweep_process_counts wd (nprocs_online wd) 1 ?st0")
  have ri: "run_index ?st0 + 5 * (7 - 1) \<le> MAX_RUNS" by (simp add: run_index_def MAX_RUNS_def)
  from sweep_process_counts_spec [OF _ _ _ ri sw, where k = 6]
  obtain new where new: "results st = new"
    "map settings_of new = take (length new) (grid (nprocs_online wd))"
    "length new \<le> 30" "e = Done () \<longrightarrow> length new = 30"
    and rest: "warned st = False" "\<forall>c. e = Exit c \<longrightarrow> c = 1"
    by (auto simp: grid_upto)
  note fo = find_optimal_settings_sweep [OF True sw]
  have pre: "grid (nprocs_online wd) = map settings_of new @ drop (length new) (grid (nprocs_online wd))"
    unfolding new(2) by simp
  have full: "map settings_of new = grid (nprocs_online wd)" if "e = Done ()"
    using new(2,4) that by (simp add: length_grid)
  show ?thesis
    unfolding fo using new(1,3,4) rest pre full
    by (cases e) (auto simp: new(1))
qed

lemma returned_Done: "returned p \<longleftrightarrow> (\<exists>r. p = Done r)"
  by (cases p) (simp_all add: returned_def)

lemma fail_end_cases: "fail_end wd m = Blocked \<or> fail_end wd m = Exit 1"
  by (simp add: fail_end_def)

lemma nth_copy_at:
  assumes "0 \<le> i" "i < 5" "m = 5 * q + nat i"
  shows "nth_copy wd m
       = perform_copy (run wd m) ((int q + 1) * nprocs_online wd) (block_sizes ! nat i)
           \<lparr>num_processes = 0, block_size = 0, elapsed_time = 0, shift_value = 6 + i\<rparr>"
proof -
  have "nat i < 5" using assms(1,2) by simp
  then have "m div 5 = q" "m mod 5 = nat i" using assms(3) by simp_all
  then show ?thesis using assms(1) by (simp add: nth_copy_def)
qed

lemma in_int_between:
  assumes "in_int (b * C)" "0 \<le> a" "a \<le> b"
  shows "in_int (a * C)"
proof (cases "0 \<le> C")
  case True
  then have "a * C \<le> b * C" "0 \<le> a * C" using assms(2,3) by (simp_all add: mult_right_mono)
  then show ?thesis using assms(1) by (simp add: in_int_def INT_MIN_def)
next
  case False
  then have "b * C \<le> a * C" "a * C \<le> 0"
    using assms(2,3) by (simp_all add: mult_right_mono_neg mult_nonneg_nonpos)
  then show ?thesis using assms(1) by (simp add: in_int_def INT_MAX_def)
qed

lemma sweep_block_sizes_run:
  "k = nat (5 - i) \<Longrightarrow> 0 \<le> i \<Longrightarrow> i \<le> 5 \<Longrightarrow> length (results st) = 5 * q + nat i \<Longrightarrow>
   np = (int q + 1) * nprocs_online wd \<Longrightarrow> run_index st + (5 - i) \<le> MAX_RUNS \<Longrightarrow>
   ((\<forall>m. 5 * q + nat i \<le> m \<and> m < 5 * q + 5 \<longrightarrow> smooth wd m) \<longrightarrow>
       fst (sweep_block_sizes wd np i st) = Done ()
       \<and> length (results (snd (sweep_block_sizes wd np i st))) = 5 * q + 5
       \<and> copies (snd (sweep_block_sizes wd np i st))
           = copies st @ map (nth_copy wd) [5 * q + nat i ..< 5 * q + 5])
   \<and> (\<forall>M. 5 * q + nat i \<le> M \<and> M < 5 * q + 5
          \<and> (\<forall>m. 5 * q + nat i \<le> m \<and> m < M \<longrightarrow> smooth wd m) \<and> \<not> smooth wd M \<longrightarrow>
       fst (sweep_block_sizes wd np i st) = fail_end wd M
       \<and> length (results (snd (sweep_block_sizes wd np i st))) = M)"
proof (induction k arbitrary: i st)
  case 0
  then have i5: "i = 5" by simp
  then have "length (results st) = 5 * q + 5" using 0 by simp
  then show ?case using i5 by (auto simp: sweep_block_sizes_stop)
next
  case (Suc k)
  then have i: "0 \<le> i" "i < 5" by simp_all
  define m0 where "m0 = 5 * q + nat i"
  have len: "length (results st) = m0" using Suc.prems(4) by (simp add: m0_def)
  have lt: "run_index st < MAX_RUNS" using Suc.prems(6) i by simp
  have out: "perform_copy (run wd m0) np (block_sizes ! nat i)
        \<lparr>num_processes = 0, block_size = 0, elapsed_time = 0, shift_value = 6 + i\<rparr>
      = nth_copy wd m0"
    using nth_copy_at [OF i, of m0 q wd] Suc.prems(5) by (simp add: m0_def)
  note step = sweep_block_sizes_step [OF i lt, of wd np, unfolded len out]
  have nxt: "5 * q + nat (i + 1) = Suc m0" using i by (simp add: m0_def nat_add_distrib)
  have top: "m0 < 5 * q + 5" using i by (simp add: m0_def)
  show ?case
  proof (cases "smooth wd m0")
    case True
    then obtain r where r: "parent (nth_copy wd m0) = Done r"
      and ok: "drop_ok wd m0" "unlink_ok wd m0"
      by (auto simp: smooth_def returned_Done)
    let ?st1 = "st\<lparr>copies := copies st @ [nth_copy wd m0], results := results st @ [r]\<rparr>"
    have eq: "sweep_block_sizes wd np i st = sweep_block_sizes wd np (i + 1) ?st1"
      using step r ok by simp
    have k: "k = nat (5 - (i + 1))" using Suc.prems(1) by simp
    have i1: "0 \<le> i + 1" "i + 1 \<le> 5" using i by simp_all
    have l1: "length (results ?st1) = 5 * q + nat (i + 1)" using len nxt by simp
    have ri: "run_index ?st1 + (5 - (i + 1)) \<le> MAX_RUNS"
      using Suc.prems(6) by (simp add: run_index_def)
    note IH = Suc.IH [OF k i1 l1 Suc.prems(5) ri, unfolded nxt, folded eq]
    have a: "fst (sweep_block_sizes wd np i st) = Done ()
       \<and> length (results (snd (sweep_block_sizes wd np i st))) = 5 * q + 5
       \<and> copies (snd (sweep_block_sizes wd np i st))
           = copies st @ map (nth_copy wd) [m0 ..< 5 * q + 5]"
      if "\<forall>m. m0 \<le> m \<and> m < 5 * q + 5 \<longrightarrow> smooth wd m"
    proof -
      have "\<forall>m. Suc m0 \<le> m \<and> m < 5 * q + 5 \<longrightarrow> smooth wd m" using that by simp
      then have "fst (sweep_block_sizes wd np i st) = Done ()
         \<and> length (results (snd (sweep_block_sizes wd np i st))) = 5 * q + 5
         \<and> copies (snd (sweep_block_sizes wd np i st))
             = copies ?st1 @ map (nth_copy wd) [Suc m0 ..< 5 * q + 5]"
        using IH by blast
      moreover have "[m0 ..< 5 * q + 5] = m0 # [Suc m0 ..< 5 * q + 5]"
        using top by (rule upt_conv_Cons)
      ultimately show ?thesis by simp
    qed
    have b: "fst (sweep_block_sizes wd np i st) = fail_end wd M
       \<and> length (results (snd (sweep_block_sizes wd np i st))) = M"
      if "m0 \<le> M" "M < 5 * q + 5" "\<forall>m. m0 \<le> m \<and> m < M \<longrightarrow> smooth wd m" "\<not> smooth wd M" for M
    proof -
      have "M \<noteq> m0" using that(4) True by blast
      then have "Suc m0 \<le> M" using that(1) by simp
      moreover have "\<forall>m. Suc m0 \<le> m \<and> m < M \<longrightarrow> smooth wd m" using that(3) by simp
      ultimately show ?thesis using IH that(2,4) by blast
    qed
    show ?thesis unfolding m0_def [symmetric] using a b by blast
  next
    case False
    have b: "fst (sweep_block_sizes wd np i st) = fail_end wd M
       \<and> length (results (snd (sweep_block_sizes wd np i st))) = M"
      if "m0 \<le> M" "\<forall>m. m0 \<le> m \<and> m < M \<longrightarrow> smooth wd m" for M
    proof -
      have "\<not> m0 < M" using that(2) False by blast
      then have M: "M = m0" using that(1) by simp
      show ?thesis
      proof (cases "drop_ok wd m0")
        case False
        then show ?thesis using step len M by (simp add: fail_end_def)
      next
        case drop: True
        consider (blocked) "parent (nth_copy wd m0) = Blocked"
          | (exit) "parent (nth_copy wd m0) = Exit 1"
          | (returned) r where "parent (nth_copy wd m0) = Done r"
          using perform_copy_parent [of "run wd m0" np "block_sizes ! nat i"
              "\<lparr>num_processes = 0, block_size = 0, elapsed_time = 0, shift_value = 6 + i\<rparr>"]
          unfolding out by blast
        then show ?thesis
        proof cases
          case blocked
          then show ?thesis using step drop len M by (simp add: fail_end_def)
        next
          case exit
          then show ?thesis using step drop len M by (simp add: fail_end_def)
        next
          case returned
          then have "\<not> unlink_ok wd m0"
            using False drop by (simp add: smooth_def returned_Done)
          then show ?thesis using step drop returned len M by (simp add: fail_end_def)
        qed
      qed
    qed
    have "\<not> (\<forall>m. m0 \<le> m \<and> m < 5 * q + 5 \<longrightarrow> smooth wd m)" using False top by auto
    then show ?thesis unfolding m0_def [symmetric] using b by blast
  qed
qed

lemma int_mul_between:
  assumes "in_int (b * C)" "1 \<le> p" "p \<le> b"
  shows "int_mul p C = Some (p * C)"
  using in_int_between [OF assms(1), of p] assms(2,3) by (simp add: int_mul_def)

lemma sweep_process_counts_smooth:
  "k = nat (7 - p) \<Longrightarrow> 1 \<le> p \<Longrightarrow> p \<le> 7 \<Longrightarrow> length (results st) = 5 * nat (p - 1) \<Longrightarrow>
   in_int (6 * nprocs_online wd) \<Longrightarrow>
   \<forall>m. 5 * nat (p - 1) \<le> m \<and> m < 30 \<longrightarrow> smooth wd m \<Longrightarrow>
   fst (sweep_process_counts wd (nprocs_online wd) p st) = Done ()
   \<and> length (results (snd (sweep_process_counts wd (nprocs_online wd) p st))) = 30
   \<and> copies (snd (sweep_process_counts wd (nprocs_online wd) p st))
       = copies st @ map (nth_copy wd) [5 * nat (p - 1) ..< 30]"
proof (induction k arbitrary: p st)
  case 0
  then have "p = 7" by simp
  then show ?case using 0 by (simp add: sweep_process_counts_stop)
next
  case (Suc k)
  then have p: "1 \<le> p" "p \<le> 6" by simp_all
  define q where "q = nat (p - 1)"
  have q: "int q + 1 = p" "q \<le> 5" using p by (simp_all add: q_def)
  have im: "int_mul p (nprocs_online wd) = Some (p * nprocs_online wd)"
    using int_mul_between [OF Suc.prems(5) p] .
  let ?inner = "sweep_block_sizes wd (p * nprocs_online wd) 0 st"
  have len: "length (results st) = 5 * q + nat 0" using Suc.prems(4) by (simp add: q_def)
  have np: "p * nprocs_online wd = (int q + 1) * nprocs_online wd" using q by simp
  have ri: "run_index st + (5 - 0) \<le> MAX_RUNS"
    using Suc.prems(4) q by (simp add: run_index_def MAX_RUNS_def q_def)
  have sm: "\<forall>m. 5 * q + nat 0 \<le> m \<and> m < 5 * q + 5 \<longrightarrow> smooth wd m"
    using Suc.prems(6) q by (simp add: q_def)
  have inner: "fst ?inner = Done ()" "length (results (snd ?inner)) = 5 * q + 5"
    "copies (snd ?inner) = copies st @ map (nth_copy wd) [5 * q ..< 5 * q + 5]"
    using sweep_block_sizes_run [OF _ _ _ len np ri, where k = 5] sm by simp_all
  have eq: "sweep_process_counts wd (nprocs_online wd) p st
      = sweep_process_counts wd (nprocs_online wd) (p + 1) (snd ?inner)"
    using sweep_process_counts_step [OF p(2), of wd "nprocs_online wd" st] im inner(1) by simp
  have k: "k = nat (7 - (p + 1))" using Suc.prems(1) by simp
  have p1: "1 \<le> p + 1" "p + 1 \<le> 7" using p by simp_all
  have q1: "nat (p + 1 - 1) = Suc q" using p by (simp add: q_def)
  have l1: "length (results (snd ?inner)) = 5 * nat (p + 1 - 1)" using inner(2) q1 by simp
  have all: "\<forall>m. 5 * nat (p + 1 - 1) \<le> m \<and> m < 30 \<longrightarrow> smooth wd m"
    using Suc.prems(6) q1 by (simp add: q_def)
  have s5: "5 * Suc q = 5 * q + 5" by simp
  note IH = Suc.IH [OF k p1 l1 Suc.prems(5) all, folded eq, unfolded q1 s5]
  have split: "[5 * q ..< 30] = [5 * q ..< 5 * q + 5] @ [5 * q + 5 ..< 30]"
    using q(2) upt_add_eq_append [of "5 * q" "5 * q + 5" "25 - 5 * q"] by simp
  have "copies (snd (sweep_process_counts wd (nprocs_online wd) p st))
      = copies (snd ?inner) @ map (nth_copy wd) [5 * q + 5 ..< 30]"
    using IH by blast
  also have "\<dots> = copies st @ map (nth_copy wd) [5 * q ..< 30]"
    unfolding inner(3) split by simp
  finally show ?case using IH by (simp add: q_def)
qed

lemma sweep_process_counts_stumbles:
  "k = nat (7 - p) \<Longrightarrow> 1 \<le> p \<Longrightarrow> p \<le> 7 \<Longrightarrow> length (results st) = 5 * nat (p - 1) \<Longrightarrow>
   5 * nat (p - 1) \<le> M \<Longrightarrow> M < 30 \<Longrightarrow>
   in_int ((int (M div 5) + 1) * nprocs_online wd) \<Longrightarrow>
   \<forall>m. 5 * nat (p - 1) \<le> m \<and> m < M \<longrightarrow> smooth wd m \<Longrightarrow> \<not> smooth wd M \<Longrightarrow>
   fst (sweep_process_counts wd (nprocs_online wd) p st) = fail_end wd M
   \<and> length (results (snd (sweep_process_counts wd (nprocs_online wd) p st))) = M"
proof (induction k arbitrary: p st)
  case 0
  then have "p = 7" by simp
  then show ?case using 0 by simp
next
  case (Suc k)
  then have p: "1 \<le> p" "p \<le> 6" by simp_all
  define q where "q = nat (p - 1)"
  have q: "int q + 1 = p" "q \<le> 5" using p by (simp_all add: q_def)
  have "q \<le> M div 5" using Suc.prems(5) by (simp add: q_def)
  then have "p \<le> int (M div 5) + 1" using q(1) by linarith
  then have im: "int_mul p (nprocs_online wd) = Some (p * nprocs_online wd)"
    using int_mul_between [OF Suc.prems(7) p(1)] by simp
  let ?inner = "sweep_block_sizes wd (p * nprocs_online wd) 0 st"
  have len: "length (results st) = 5 * q + nat 0" using Suc.prems(4) by (simp add: q_def)
  have np: "p * nprocs_online wd = (int q + 1) * nprocs_online wd" using q by simp
  have ri: "run_index st + (5 - 0) \<le> MAX_RUNS"
    using Suc.prems(4) q by (simp add: run_index_def MAX_RUNS_def q_def)
  note run = sweep_block_sizes_run [OF _ _ _ len np ri, where k = 5, simplified]
  note step = sweep_process_counts_step [OF p(2), of wd "nprocs_online wd" st, unfolded im]
  show ?case
  proof (cases "M < 5 * q + 5")
    case True
    have "\<forall>m. 5 * q \<le> m \<and> m < M \<longrightarrow> smooth wd m" using Suc.prems(8) by (simp add: q_def)
    then have inner: "fst ?inner = fail_end wd M" "length (results (snd ?inner)) = M"
      using run True Suc.prems(5,9) by (simp_all add: q_def)
    have "fst ?inner \<noteq> Done ()" using inner(1) by (simp add: fail_end_def)
    then have "sweep_process_counts wd (nprocs_online wd) p st = ?inner" using step by simp
    then show ?thesis using inner by simp
  next
    case False
    then have "\<forall>m. 5 * q \<le> m \<and> m < 5 * q + 5 \<longrightarrow> smooth wd m"
      using Suc.prems(8) by (simp add: q_def)
    then have inner: "fst ?inner = Done ()" "length (results (snd ?inner)) = 5 * q + 5"
      using run by simp_all
    have eq: "sweep_process_counts wd (nprocs_online wd) p st
        = sweep_process_counts wd (nprocs_online wd) (p + 1) (snd ?inner)"
      using step inner(1) by simp
    have k: "k = nat (7 - (p + 1))" using Suc.prems(1) by simp
    have p1: "1 \<le> p + 1" "p + 1 \<le> 7" using p by simp_all
    have q1: "nat (p + 1 - 1) = Suc q" using p by (simp add: q_def)
    have l1: "length (results (snd ?inner)) = 5 * nat (p + 1 - 1)" using inner(2) q1 by simp
    have lo: "5 * nat (p + 1 - 1) \<le> M" using False q1 by simp
    have all: "\<forall>m. 5 * nat (p + 1 - 1) \<le> m \<and> m < M \<longrightarrow> smooth wd m"
      using Suc.prems(8) q1 by (simp add: q_def)
    show ?thesis
      unfolding eq by (rule Suc.IH [OF k p1 l1 lo Suc.prems(6,7) all Suc.prems(9)])
  qed
qed

lemma find_optimal_settings_smooth:
  assumes "malloc_ok wd" "in_int (6 * nprocs_online wd)" "\<forall>m<30. smooth wd m"
  shows "fst (find_optimal_settings wd)
           = Done (report_runs (results (snd (find_optimal_settings wd))))"
    and "length (results (snd (find_optimal_settings wd))) = 30"
    and "map settings_of (results (snd (find_optimal_settings wd))) = grid (nprocs_online wd)"
    and "copies (snd (find_optimal_settings wd)) = map (nth_copy wd) [0 ..< 30]"
proof -
  let ?st0 = "\<lparr>results = [], warned = False, copies = []\<rparr> :: sweep"
  obtain e st where sw: "sweep_process_counts wd (nprocs_online wd) 1 ?st0 = (e, st)"
    by (cases "sweep_process_counts wd (nprocs_online wd) 1 ?st0")
  have all: "\<forall>m. 5 * nat (1 - 1) \<le> m \<and> m < 30 \<longrightarrow> smooth wd m" using assms(3) by simp
  have "e = Done ()" and st: "length (results st) = 30" "copies st = map (nth_copy wd) [0 ..< 30]"
    using sweep_process_counts_smooth [OF _ _ _ _ assms(2) all, of 6 ?st0] sw by simp_all
  then have fin: "fst (find_optimal_settings wd) = Done (report_runs (results st))"
    using find_optimal_settings_sweep(2) [OF assms(1) sw] by simp
  have snd: "snd (find_optimal_settings wd) = st"
    using find_optimal_settings_sweep(1) [OF assms(1) sw] .
  show "fst (find_optimal_settings wd)
           = Done (report_runs (results (snd (find_optimal_settings wd))))"
    using fin snd by simp
  then show "map settings_of (results (snd (find_optimal_settings wd))) = grid (nprocs_online wd)"
    using find_optimal_settings_spec [of wd] by blast
  show "length (results (snd (find_optimal_settings wd))) = 30"
    "copies (snd (find_optimal_settings wd)) = map (nth_copy wd) [0 ..< 30]"
    using st snd by simp_all
qed

lemma find_optimal_settings_stumbles:
  assumes "malloc_ok wd" "M < 30" "in_int ((int (M div 5) + 1) * nprocs_online wd)"
    and "\<forall>m<M. smooth wd m" "\<not> smooth wd M"
  shows "fst (find_optimal_settings wd) = fail_end wd M"
    and "length (results (snd (find_optimal_settings wd))) = M"
proof -
  let ?st0 = "\<lparr>results = [], warned = False, copies = []\<rparr> :: sweep"
  obtain e st where sw: "sweep_process_counts wd (nprocs_online wd) 1 ?st0 = (e, st)"
    by (cases "sweep_process_counts wd (nprocs_online wd) 1 ?st0")
  have all: "\<forall>m. 5 * nat (1 - 1) \<le> m \<and> m < M \<longrightarrow> smooth wd m" using assms(4) by simp
  have e: "e = fail_end wd M" and st: "length (results st) = M"
    using sweep_process_counts_stumbles [OF _ _ _ _ _ assms(2,3) all assms(5), of 6 ?st0] sw
    by simp_all
  have snd: "snd (find_optimal_settings wd) = st"
    using find_optimal_settings_sweep(1) [OF assms(1) sw] .
  show "length (results (snd (find_optimal_settings wd))) = M" using st snd by simp
  show "fst (find_optimal_settings wd) = fail_end wd M"
    using find_optimal_settings_sweep(2) [OF assms(1) sw] e
    by (simp add: fail_end_def)
qed

lemma find_optimal_settings_completes:
  assumes "malloc_ok wd" "0 \<le> nprocs_online wd" "6 * nprocs_online wd \<le> INT_MAX"
    and "\<forall>m<30. smooth wd m"
  shows "\<exists>rep. fst (find_optimal_settings wd) = Done rep"
proof -
  have "in_int (6 * nprocs_online wd)"
    using assms(2,3) by (simp add: in_int_def INT_MIN_def)
  then show ?thesis using find_optimal_settings_smooth(1) [OF assms(1) _ assms(4)] by blast
qed

lemma perform_copy_empty_returns:
  assumes "stat_size env = Some 0" "creat_ok env" "\<forall>j. fork_ok env j"
  shows "\<exists>r. parent (perform_copy env np bs slot) = Done r"
proof -
  have "\<forall>j. 0 \<le> j \<and> j < np \<longrightarrow> fork_ok env j" using assms(3) by simp
  note pc = perform_copy_forked [OF assms(1,2) this, of bs slot]
  have "\<not> (\<exists>k \<in> set (map (\<lambda>j. child_process (child env j) 0 j np bs) [0 .. np - 1]).
      fst k = Unfinished)"
    using child_process_empty by auto
  then show ?thesis unfolding pc by simp
qed

lemma smooth_idle_world: "smooth idle_world m"
proof -
  have "drop_ok idle_world m" "unlink_ok idle_world m"
    by (simp_all add: idle_world_def calm_world_def)
  moreover have "\<exists>r. parent (nth_copy idle_world m) = Done r"
    unfolding nth_copy_def
    by (rule perform_copy_empty_returns) (simp_all add: idle_world_def calm_world_def calm_run_def)
  ultimately show ?thesis by (simp add: smooth_def returned_Done)
qed

lemma in_int_six: "0 \<le> C \<Longrightarrow> 6 * C \<le> INT_MAX \<Longrightarrow> in_int (6 * C)"
  by (simp add: in_int_def INT_MIN_def)

lemma in_int_pass:
  assumes "in_int (6 * C)" "M < 30"
  shows "in_int ((int (M div 5) + 1) * C)"
proof -
  have "M div 5 \<le> 5" using assms(2) by linarith
  then have "int (M div 5) + 1 \<le> 6" by simp
  then show ?thesis using in_int_between [OF assms(1), of "int (M div 5) + 1"] by simp
qed

subsection \<open>Sorting and the report\<close>

declare fastest_from.simps [simp del]
declare slowest_from.simps [simp del]

lemma compare_le: "compare_run_results a b \<le> 0 \<longleftrightarrow> elapsed_time a \<le> elapsed_time b"
  by (simp add: compare_run_results_def)

lemma mset_qsort_insert: "mset (qsort_insert cmp x ys) = add_mset x (mset ys)"
  by (induction ys) simp_all

lemma mset_qsort: "mset (qsort cmp xs) = mset xs"
  by (induction xs) (simp_all add: mset_qsort_insert)

lemma set_qsort_insert: "set (qsort_insert cmp x ys) = insert x (set ys)"
  using mset_qsort_insert [of cmp x ys, THEN arg_cong, of set_mset] by simp

lemma sorted_qsort_insert:
  "sorted_wrt (\<lambda>a b. elapsed_time a \<le> elapsed_time b) ys \<Longrightarrow>
   sorted_wrt (\<lambda>a b. elapsed_time a \<le> elapsed_time b) (qsort_insert compare_run_results x ys)"
proof (induction ys)
  case Nil
  then show ?case by simp
next
  case (Cons y ys)
  show ?case
  proof (cases "compare_run_results x y \<le> 0")
    case True
    then have "elapsed_time x \<le> elapsed_time y" by (simp add: compare_le)
    then show ?thesis using Cons.prems True by auto
  next
    case False
    then have "elapsed_time y \<le> elapsed_time x" by (simp add: compare_le)
    then show ?thesis using Cons False by (auto simp: set_qsort_insert)
  qed
qed

lemma sorted_qsort:
  "sorted_wrt (\<lambda>a b. elapsed_time a \<le> elapsed_time b) (qsort compare_run_results xs)"
  by (induction xs) (simp_all add: sorted_qsort_insert)

lemma length_qsort: "length (qsort cmp xs) = length xs"
  using mset_qsort [of cmp xs, THEN arg_cong, of size] by simp

lemma fastest_from_take:
  "k = nat (5 - i) \<Longrightarrow> 0 \<le> i \<Longrightarrow> n = int (length rs) \<Longrightarrow>
   map snd (fastest_from rs n i) = drop (nat i) (take 5 rs)"
proof (induction k arbitrary: i)
  case 0
  then have "\<not> (i < 5 \<and> i < n)" by simp
  then have "fastest_from rs n i = []" by (subst fastest_from.simps) simp
  then show ?case using 0 by simp
next
  case (Suc k)
  then have i: "0 \<le> i" "i < 5" by simp_all
  show ?case
  proof (cases "i < n")
    case False
    then have "fastest_from rs n i = []" by (subst fastest_from.simps) simp
    then show ?thesis using False Suc.prems by simp
  next
    case True
    then have f: "fastest_from rs n i = (i + 1, rs ! nat i) # fastest_from rs n (i + 1)"
      using i by (subst fastest_from.simps) simp
    have "nat i < length rs" "nat i < 5" using True i Suc.prems(3) by linarith+
    then have lt: "nat i < length (take 5 rs)" by simp
    have "drop (nat i) (take 5 rs) = (take 5 rs) ! nat i # drop (Suc (nat i)) (take 5 rs)"
      by (rule Cons_nth_drop_Suc [OF lt, symmetric])
    moreover have "(take 5 rs) ! nat i = rs ! nat i" using i by simp
    moreover have "Suc (nat i) = nat (i + 1)" using i by simp
    moreover have "map snd (fastest_from rs n (i + 1)) = drop (nat (i + 1)) (take 5 rs)"
      using Suc.IH [of "i + 1"] Suc.prems i by simp
    ultimately show ?thesis using f by simp
  qed
qed

lemma slowest_from_drop:
  "k = nat (i + 1) \<Longrightarrow> - 1 \<le> i \<Longrightarrow> i < n \<Longrightarrow> n = int (length rs) \<Longrightarrow>
   map snd (slowest_from rs n i) = rev (drop (nat (n - 5)) (take (nat (i + 1)) rs))"
proof (induction k arbitrary: i)
  case 0
  then have "i = - 1" by simp
  then have "slowest_from rs n i = []" by (subst slowest_from.simps) simp
  then show ?case using \<open>i = - 1\<close> by simp
next
  case (Suc k)
  then have i: "0 \<le> i" "i < n" by simp_all
  show ?case
  proof (cases "i \<ge> n - 5")
    case False
    then have "slowest_from rs n i = []" by (subst slowest_from.simps) simp
    moreover have "drop (nat (n - 5)) (take (nat (i + 1)) rs) = []" using False i by simp
    ultimately show ?thesis by simp
  next
    case True
    then have f: "slowest_from rs n i = (n - i, rs ! nat i) # slowest_from rs n (i - 1)"
      using i by (subst slowest_from.simps) simp
    have lt: "nat i < length rs" using i Suc.prems(4) by simp
    have tk: "take (nat (i + 1)) rs = take (nat i) rs @ [rs ! nat i]"
    proof -
      have "nat (i + 1) = Suc (nat i)" using i by simp
      then show ?thesis using lt by (simp add: take_Suc_conv_app_nth)
    qed
    have le: "nat (n - 5) \<le> length (take (nat i) rs)" using True lt by simp
    have IH: "map snd (slowest_from rs n (i - 1)) = rev (drop (nat (n - 5)) (take (nat i) rs))"
      using Suc.IH [of "i - 1"] Suc.prems i by simp
    show ?thesis unfolding f tk using IH le by simp
  qed
qed

lemma report_runs_spec:
  "sorted_wrt (\<lambda>a b. elapsed_time a \<le> elapsed_time b) (sorted_runs (report_runs rs))
   \<and> mset (sorted_runs (report_runs rs)) = mset rs
   \<and> map snd (fastest (report_runs rs)) = take 5 (sorted_runs (report_runs rs))
   \<and> map snd (slowest (report_runs rs))
       = rev (drop (length rs - 5) (sorted_runs (report_runs rs)))"
proof -
  let ?s = "qsort compare_run_results rs"
  have n: "int (length rs) = int (length ?s)" by (simp add: length_qsort)
  have f: "map snd (fastest_from ?s (int (length rs)) 0) = take 5 ?s"
    using fastest_from_take [OF _ _ n, of 5 0] by simp
  have "map snd (slowest_from ?s (int (length rs)) (int (length rs) - 1))
      = rev (drop (nat (int (length rs) - 5)) (take (nat (int (length rs) - 1 + 1)) ?s))"
    by (rule slowest_from_drop [OF _ _ _ n]) simp_all
  moreover have "nat (int (length rs) - 5) = length rs - 5" by simp
  ultimately have s: "map snd (slowest_from ?s (int (length rs)) (int (length rs) - 1))
      = rev (drop (length rs - 5) ?s)"
    by (simp add: length_qsort)
  show ?thesis
    using f s by (simp add: report_runs_def Let_def sorted_qsort mset_qsort)
qed

subsection \<open>How the main process ends\<close>











lemma perform_copy_direct:
  "parent (perform_copy env np bs res) =
     (case stat_size env of
        None \<Rightarrow> Exit 1
      | Some fs \<Rightarrow>
          if \<not> creat_ok env then Exit 1
          else if \<exists>j \<in> {0 ..< np}. \<not> fork_ok env j then Exit 1
          else if \<exists>j \<in> {0 ..< np}. fst (child_process (child env j) fs j np bs) = Unfinished
          then Blocked
          else Done (res\<lparr>num_processes := np, block_size := bs,
                          elapsed_time := elapsed (start_time env) (end_time env)\<rparr>))"
proof (cases "stat_size env")
  case None
  then show ?thesis by (simp add: perform_copy_setup_fails)
next
  case (Some fs)
  show ?thesis
  proof (cases "creat_ok env")
    case False
    then show ?thesis using Some by (simp add: perform_copy_setup_fails)
  next
    case True
    show ?thesis
    proof (cases "\<exists>j \<in> {0 ..< np}. \<not> fork_ok env j")
      case bad: True
      then have "\<exists>j. 0 \<le> j \<and> j < np \<and> \<not> fork_ok env j" by auto
      then have "parent (perform_copy env np bs res) = Exit 1"
        by (rule perform_copy_fork_fails [OF Some True])
      then show ?thesis using Some True bad by simp
    next
      case good: False
      then have "\<forall>j. 0 \<le> j \<and> j < np \<longrightarrow> fork_ok env j" by auto
      note pc = perform_copy_forked [OF Some True this, of bs res]
      have "set [0 .. np - 1] = {0 ..< np}" by auto
      then have "(\<exists>k \<in> set (map (\<lambda>j. child_process (child env j) fs j np bs) [0 .. np - 1]).
            fst k = Unfinished)
          \<longleftrightarrow> (\<exists>j \<in> {0 ..< np}. fst (child_process (child env j) fs j np bs) = Unfinished)"
        by auto
      then show ?thesis unfolding pc using Some True good by simp
    qed
  qed
qed


lemma find_optimal_settings_no_drop:
  assumes "malloc_ok wd" "in_int (nprocs_online wd)" "\<not> drop_ok wd 0"
  shows "fst (find_optimal_settings wd) = Exit 1"
proof -
  let ?st0 = "\<lparr>results = [], warned = False, copies = []\<rparr> :: sweep"
  have im: "int_mul 1 (nprocs_online wd) = Some (nprocs_online wd)"
    using assms(2) by (simp add: int_mul_def)
  have "run_index ?st0 < MAX_RUNS" by (simp add: run_index_def MAX_RUNS_def)
  then have "sweep_block_sizes wd (nprocs_online wd) 0 ?st0 = (Exit 1, ?st0)"
    using assms(3) sweep_block_sizes_step [of 0 ?st0 wd "nprocs_online wd"] by simp
  then have "sweep_process_counts wd (nprocs_online wd) 1 ?st0 = (Exit 1, ?st0)"
    using sweep_process_counts_step [of 1 wd "nprocs_online wd" ?st0] im by simp
  then show ?thesis using find_optimal_settings_sweep(2) [OF assms(1)] by simp
qed


subsection \<open>A machine on which nothing fails\<close>

lemma block_sizes_nth: "i < 5 \<Longrightarrow> 0 < block_sizes ! i \<and> block_sizes ! i \<le> 1048576"
proof -
  assume "i < 5"
  then have "i = 0 \<or> i = 1 \<or> i = 2 \<or> i = 3 \<or> i = 4" by linarith
  then show ?thesis by (elim disjE) (simp_all add: block_sizes_def)
qed

lemma plain_child_ends:
  assumes "0 \<le> j" "j < np" "0 < bs" "np \<le> 6" "bs \<le> 1048576"
  shows "fst (child_process plain_child 10 j np bs) = Exits 0"
proof -
  have "np * bs \<le> 6 * 1048576" using assms by (intro mult_mono) simp_all
  then have "10 + np * bs < 2 ^ 63" by simp
  moreover have "src_ok plain_child \<and> dst_ok plain_child
      \<and> (\<forall>ev \<in> set (events plain_child). harmless ev)
      \<and> nat 10 \<le> moves (events plain_child) \<and> nat 10 \<le> passes plain_child"
    by (simp add: plain_child_def harmless_def moves_def)
  ultimately have "fst (copy_blocks plain_child 10 j np bs) = Returns"
    using copy_blocks_planned [OF assms(1,2,3), of 10 plain_child] by simp
  then show ?thesis
    by (cases "copy_blocks plain_child 10 j np bs") (simp add: child_process_def)
qed

lemma perform_copy_calm:
  assumes "0 < bs" "np \<le> 6" "bs \<le> 1048576"
  shows "returned (parent (perform_copy (calm_run secs) np bs slot))"
proof -
  have "fst (child_process (child (calm_run secs) j) 10 j np bs) \<noteq> Unfinished"
    if "j \<in> {0 ..< np}" for j
    using plain_child_ends [of j np bs] that assms by (simp add: calm_run_def)
  then have "\<not> (\<exists>j \<in> {0 ..< np}.
      fst (child_process (child (calm_run secs) j) 10 j np bs) = Unfinished)"
    by blast
  moreover have "stat_size (calm_run secs) = Some 10" "creat_ok (calm_run secs)"
    "\<not> (\<exists>j \<in> {0 ..< np}. \<not> fork_ok (calm_run secs) j)"
    by (simp_all add: calm_run_def)
  ultimately show ?thesis
    unfolding perform_copy_direct [of "calm_run secs" np bs slot] by (simp add: returned_def)
qed

lemma smooth_calm:
  assumes "m < 30" "nprocs_online wd = 1" "run wd m = calm_run secs"
  shows "smooth wd m \<longleftrightarrow> drop_ok wd m \<and> unlink_ok wd m"
proof -
  have "m mod 5 < 5" by simp
  note bs = block_sizes_nth [OF this]
  have "m div 5 \<le> 5" using assms(1) by simp
  then have np: "(int (m div 5) + 1) * nprocs_online wd \<le> 6" using assms(2) by simp
  have "returned (parent (nth_copy wd m))"
    unfolding nth_copy_def assms(3) using bs np by (intro perform_copy_calm) simp_all
  then show ?thesis by (simp add: smooth_def)
qed

lemma smooth_calm_world: "m < 30 \<Longrightarrow> smooth calm_world m"
  using smooth_calm [of m calm_world "(7 * int m) mod 11"] by (simp add: calm_world_def)

subsection \<open>How the search ends the main process\<close>

lemma smooth_iff:
  "smooth wd m \<longleftrightarrow>
     drop_ok wd m \<and> unlink_ok wd m
     \<and> (\<exists>fs. stat_size (run wd m) = Some fs \<and> creat_ok (run wd m)
          \<and> (\<forall>j \<in> {0 ..< (int (m div 5) + 1) * nprocs_online wd}.
               fork_ok (run wd m) j
               \<and> fst (child_process (child (run wd m) j) fs j
                      ((int (m div 5) + 1) * nprocs_online wd) (block_sizes ! (m mod 5)))
                   \<noteq> Unfinished))"
proof (cases "stat_size (run wd m)")
  case None
  then show ?thesis
    by (simp add: smooth_def nth_copy_def perform_copy_direct returned_def)
next
  case (Some fs)
  then show ?thesis
    unfolding smooth_def nth_copy_def perform_copy_direct returned_def
    by (auto split: if_splits)
qed




subsection \<open>A result of zero and a stale \<^verbatim>\<open>errno\<close>\<close>

lemma send_block_stale:
  assumes "0 < ts" "errno_now w = EINTR \<or> errno_now w = EAGAIN"
  shows "0 \<le> offset w \<Longrightarrow> offset w < fs \<Longrightarrow> errno_now w = EINTR \<or> errno_now w = EAGAIN \<Longrightarrow>
    send_block fs (replicate k Nothing) ts w = (Unfinished, w\<lparr>calls := calls w + k\<rparr>, [])"
proof (induction k arbitrary: w)
  case 0
  then show ?case using assms(1) by (simp add: send_block.simps)
next
  case (Suc k)
  let ?w1 = "w\<lparr>calls := Suc (calls w)\<rparr>"
  have sf: "sendfile fs ts Nothing w = (0, ?w1)"
    using Suc.prems by (simp add: sendfile_def)
  have "send_block fs (Nothing # replicate k Nothing) ts w
      = send_block fs (replicate k Nothing) ts ?w1"
    using assms(1) Suc.prems sf by (auto simp: send_block.simps)
  also have "\<dots> = (Unfinished, ?w1\<lparr>calls := calls ?w1 + k\<rparr>, [])"
    using Suc.prems by (intro Suc.IH) simp_all
  finally show ?case by simp
qed

lemma starved_child_spins:
  "child_process (starved_child k) 10 0 1 4
     = (Unfinished,
        \<lparr>offset = 4, dest_offset = 4, dest_pos = 4, errno_now = EINTR, source_open = True,
         dest_open = True, seeks = [(0, 0), (4, 4)], writes = [(0, 0, 4)], ranges = [(0, 4)],
         calls = k + 2\<rparr>)"
proof -
  let ?w0 = "\<lparr>offset = 0, dest_offset = 0, dest_pos = 0, errno_now = EIO, source_open = True,
         dest_open = True, seeks = [], writes = [], ranges = [], calls = 0\<rparr>"
  let ?w1 = "\<lparr>offset = 4, dest_offset = 0, dest_pos = 4, errno_now = EINTR, source_open = True,
         dest_open = True, seeks = [(0, 0)], writes = [(0, 0, 4)], ranges = [], calls = 2\<rparr>"
  let ?w2 = "\<lparr>offset = 4, dest_offset = 4, dest_pos = 4, errno_now = EINTR, source_open = True,
         dest_open = True, seeks = [(0, 0)], writes = [(0, 0, 4)], ranges = [(0, 4)],
         calls = 2\<rparr>"
  let ?w3 = "\<lparr>offset = 4, dest_offset = 4, dest_pos = 4, errno_now = EINTR, source_open = True,
         dest_open = True, seeks = [(0, 0), (4, 4)], writes = [(0, 0, 4)], ranges = [(0, 4)],
         calls = 2\<rparr>"
  let ?evs = "Failed EINTR # Moved 0 # replicate k Nothing"
  have conv: "to_off_t (size_mul 0 4) = 0" "to_ssize_t 4 = 4"
    "to_off_t (size_add 0 (size_mul 1 4)) = 4" "to_off_t (size_add 4 (size_mul 0 4)) = 4"
    by (simp_all add: to_off_t_def to_ssize_t_def size_mul_def size_add_def to_size_t_def)
  have stop: "send_block 10 evs 0 v = (Returns, v, evs)" for evs and v :: worker
    by (rule send_block_stop) simp
  have start: "copy_blocks (starved_child k) 10 0 1 4 = copy_loop 3 10 1 4 ?evs ?w0"
    by (simp add: copy_blocks_def starved_child_def conv Let_def)
  have sb1: "send_block 10 ?evs (to_ssize_t 4) (seeked ?w0) = (Returns, ?w1, replicate k Nothing)"
    by (simp add: send_block.simps(2) stop sendfile_def seeked_def conv Let_def)
  have st1: "stepped 1 4 ?w0 ?w1 = ?w2" by (simp add: stepped_def conv)
  have pass1: "copy_loop (Suc 2) 10 1 4 ?evs ?w0 = copy_loop 2 10 1 4 (replicate k Nothing) ?w2"
    using copy_loop_Suc [OF _ _ sb1, of 2 1] st1 by (simp add: lseek_fails_def)
  have "send_block 10 (replicate k Nothing) 4 ?w3 = (Unfinished, ?w3\<lparr>calls := calls ?w3 + k\<rparr>, [])"
    by (rule send_block_stale) simp_all
  then have sb2: "send_block 10 (replicate k Nothing) (to_ssize_t 4) (seeked ?w2)
      = (Unfinished, ?w3\<lparr>calls := k + 2\<rparr>, [])"
    by (simp add: seeked_def conv)
  have pass2: "copy_loop (Suc 1) 10 1 4 (replicate k Nothing) ?w2
      = (Unfinished, ?w3\<lparr>calls := k + 2\<rparr>)"
    using copy_loop_Suc [OF _ _ sb2, of 1 1] by (simp add: lseek_fails_def)
  have "copy_blocks (starved_child k) 10 0 1 4 = (Unfinished, ?w3\<lparr>calls := k + 2\<rparr>)"
    using start pass1 pass2 by (simp add: numeral_3_eq_3 numeral_2_eq_2)
  then show ?thesis by (simp add: child_process_def)
qed

lemma cut_child_exits:
  "child_process (cut_child (Suc k)) 10 0 1 4
     = (Exits 1,
        \<lparr>offset = 4, dest_offset = 4, dest_pos = 4, errno_now = EIO, source_open = False,
         dest_open = False, seeks = [(0, 0), (4, 4)], writes = [(0, 0, 4)], ranges = [(0, 4)],
         calls = 2\<rparr>)"
proof -
  let ?w0 = "\<lparr>offset = 0, dest_offset = 0, dest_pos = 0, errno_now = EIO, source_open = True,
         dest_open = True, seeks = [], writes = [], ranges = [], calls = 0\<rparr>"
  let ?w1 = "\<lparr>offset = 4, dest_offset = 0, dest_pos = 4, errno_now = EIO, source_open = True,
         dest_open = True, seeks = [(0, 0)], writes = [(0, 0, 4)], ranges = [], calls = 1\<rparr>"
  let ?w2 = "\<lparr>offset = 4, dest_offset = 4, dest_pos = 4, errno_now = EIO, source_open = True,
         dest_open = True, seeks = [(0, 0)], writes = [(0, 0, 4)], ranges = [(0, 4)],
         calls = 1\<rparr>"
  let ?w3 = "\<lparr>offset = 4, dest_offset = 4, dest_pos = 4, errno_now = EIO, source_open = False,
         dest_open = False, seeks = [(0, 0), (4, 4)], writes = [(0, 0, 4)], ranges = [(0, 4)],
         calls = 2\<rparr>"
  let ?evs = "Moved 0 # replicate (Suc k) Nothing"
  have conv: "to_off_t (size_mul 0 4) = 0" "to_ssize_t 4 = 4"
    "to_off_t (size_add 0 (size_mul 1 4)) = 4" "to_off_t (size_add 4 (size_mul 0 4)) = 4"
    by (simp_all add: to_off_t_def to_ssize_t_def size_mul_def size_add_def to_size_t_def)
  have stop: "send_block 10 evs 0 v = (Returns, v, evs)" for evs and v :: worker
    by (rule send_block_stop) simp
  have start: "copy_blocks (cut_child (Suc k)) 10 0 1 4 = copy_loop 3 10 1 4 ?evs ?w0"
    by (simp add: copy_blocks_def cut_child_def conv Let_def)
  have sb1: "send_block 10 ?evs (to_ssize_t 4) (seeked ?w0)
      = (Returns, ?w1, replicate (Suc k) Nothing)"
    by (simp add: send_block.simps(2) stop sendfile_def seeked_def conv Let_def)
  have st1: "stepped 1 4 ?w0 ?w1 = ?w2" by (simp add: stepped_def conv)
  have pass1: "copy_loop (Suc 2) 10 1 4 ?evs ?w0
      = copy_loop 2 10 1 4 (replicate (Suc k) Nothing) ?w2"
    using copy_loop_Suc [OF _ _ sb1, of 2 1] st1 by (simp add: lseek_fails_def)
  have sb2: "send_block 10 (replicate (Suc k) Nothing) (to_ssize_t 4) (seeked ?w2)
      = (Exits 1, ?w3, replicate k Nothing)"
    by (simp add: send_block.simps(2) sendfile_def seeked_def close_both_def conv Let_def)
  have pass2: "copy_loop (Suc 1) 10 1 4 (replicate (Suc k) Nothing) ?w2 = (Exits 1, ?w3)"
    using copy_loop_Suc [OF _ _ sb2, of 1 1] by (simp add: lseek_fails_def)
  have "copy_blocks (cut_child (Suc k)) 10 0 1 4 = (Exits 1, ?w3)"
    using start pass1 pass2 by (simp add: numeral_3_eq_3 numeral_2_eq_2)
  then show ?thesis by (simp add: child_process_def)
qed

lemma starved_run_blocks: "parent (perform_copy (starved_run k) 1 4 slot) = Blocked"
proof -
  have "fst (child_process (child (starved_run k) 0) 10 0 1 4) = Unfinished"
    using starved_child_spins [of k] by (simp add: starved_run_def)
  then have "\<exists>j \<in> {0 ..< 1}. fst (child_process (child (starved_run k) j) 10 j 1 4) = Unfinished"
    by (intro bexI [of _ 0]) simp_all
  then show ?thesis
    unfolding perform_copy_direct [of "starved_run k" 1 4 slot]
    by (simp add: starved_run_def calm_run_def)
qed


section \<open>The claims\<close>

subsection \<open>C1: the workers' ranges cover the file exactly once\<close>

text \<open>
  Claim C1, amended. For \<open>file_size > 0\<close>, \<open>block_size > 0\<close>, \<open>worker_count > 0\<close> and
  \<open>file_size + worker_count * block_size < 2^63\<close>, when every worker returns: the union
  of the ranges of all workers is \<open>[0, file_size)\<close>, no byte belongs to the ranges of two
  workers, and the bytes a worker's calls of \<^verbatim>\<open>sendfile\<close> moved are exactly the bytes of
  its ranges.
\<close>

theorem coverage:
  assumes "0 < fs" "0 < bs" "0 < n" "fs + n * bs < 2 ^ 63"
    and "\<forall>i \<in> {0 ..< n}. fst (copy_blocks (ce i) fs i n bs) = Returns"
  shows "(\<Union>i \<in> {0 ..< n}. range_bytes (ranges (snd (copy_blocks (ce i) fs i n bs)))) = {0 ..< fs}
       \<and> (\<forall>i \<in> {0 ..< n}. \<forall>j \<in> {0 ..< n}. i \<noteq> j \<longrightarrow>
             range_bytes (ranges (snd (copy_blocks (ce i) fs i n bs)))
               \<inter> range_bytes (ranges (snd (copy_blocks (ce j) fs j n bs))) = {})
       \<and> (\<forall>i \<in> {0 ..< n}. moved_bytes (writes (snd (copy_blocks (ce i) fs i n bs)))
             = range_bytes (ranges (snd (copy_blocks (ce i) fs i n bs))))"
proof -
  have fits: "fits fs n bs" using assms by (simp add: fits_def)
  have rb: "range_bytes (ranges (snd (copy_blocks (ce i) fs i n bs)))
              = {b. 0 \<le> b \<and> b < fs \<and> (b div bs) mod n = i}"
    and mb: "moved_bytes (writes (snd (copy_blocks (ce i) fs i n bs)))
              = range_bytes (ranges (snd (copy_blocks (ce i) fs i n bs)))"
    if i: "i \<in> {0 ..< n}" for i
  proof -
    have i0: "0 \<le> i" "i < n" using i by simp_all
    have ret: "fst (copy_blocks (ce i) fs i n bs) = Returns" using assms(5) i by blast
    have fs0: "0 \<le> fs" using assms(1) by simp
    have rg: "ranges (snd (copy_blocks (ce i) fs i n bs)) = planned_ranges fs bs n i"
      using copy_blocks_planned [OF i0 assms(2) fs0 assms(4), of "ce i"] ret by blast
    show "range_bytes (ranges (snd (copy_blocks (ce i) fs i n bs)))
              = {b. 0 \<le> b \<and> b < fs \<and> (b div bs) mod n = i}"
      unfolding rg by (rule range_bytes_planned_ranges [OF assms(2,3) i0])
    have opened: "src_ok (ce i) \<and> dst_ok (ce i)"
      using copy_blocks_no_open [of "ce i" fs i n bs] ret by auto
    then obtain w where w: "copy_blocks (ce i) fs i n bs
          = copy_loop (passes (ce i)) fs n bs (events (ce i)) w"
      "offset w = i * bs" "dest_offset w = i * bs" "writes w = []"
      using copy_blocks_start [OF fits i0] by blast
    have o: "0 \<le> offset w" using w i0 assms by simp
    have d: "offset w < fs \<longrightarrow> dest_offset w = offset w" using w by simp
    obtain w' where r: "copy_loop (passes (ce i)) fs n bs (events (ce i)) w = (Returns, w')"
      using ret w(1) by (cases "copy_loop (passes (ce i)) fs n bs (events (ce i)) w") simp
    have "moved_bytes (writes w') = range_bytes (planned_ranges fs bs n i)"
      using copy_loop_moved_bytes [OF fits o d r] w
      by (simp add: planned_ranges_def moved_bytes_def)
    then show "moved_bytes (writes (snd (copy_blocks (ce i) fs i n bs)))
              = range_bytes (ranges (snd (copy_blocks (ce i) fs i n bs)))"
      unfolding rg using w(1) r by simp
  qed
  have cover: "(\<Union>i \<in> {0 ..< n}. range_bytes (ranges (snd (copy_blocks (ce i) fs i n bs)))) = {0 ..< fs}"
  proof (rule set_eqI)
    fix b
    have "b \<in> (\<Union>i \<in> {0 ..< n}. range_bytes (ranges (snd (copy_blocks (ce i) fs i n bs))))
        \<longleftrightarrow> (\<exists>i \<in> {0 ..< n}. b \<in> {b. 0 \<le> b \<and> b < fs \<and> (b div bs) mod n = i})"
      using rb by simp
    also have "\<dots> \<longleftrightarrow> 0 \<le> b \<and> b < fs"
    proof -
      have "(b div bs) mod n \<in> {0 ..< n}" using assms(3) by simp
      then show ?thesis by auto
    qed
    finally show "b \<in> (\<Union>i \<in> {0 ..< n}. range_bytes (ranges (snd (copy_blocks (ce i) fs i n bs))))
        \<longleftrightarrow> b \<in> {0 ..< fs}" by simp
  qed
  have disj: "\<forall>i \<in> {0 ..< n}. \<forall>j \<in> {0 ..< n}. i \<noteq> j \<longrightarrow>
             range_bytes (ranges (snd (copy_blocks (ce i) fs i n bs)))
               \<inter> range_bytes (ranges (snd (copy_blocks (ce j) fs j n bs))) = {}"
  proof (intro ballI impI)
    fix i j assume ij: "i \<in> {0 ..< n}" "j \<in> {0 ..< n}" "i \<noteq> j"
    show "range_bytes (ranges (snd (copy_blocks (ce i) fs i n bs)))
               \<inter> range_bytes (ranges (snd (copy_blocks (ce j) fs j n bs))) = {}"
      unfolding rb [OF ij(1)] rb [OF ij(2)] using ij(3) by auto
  qed
  show ?thesis using cover disj mb by simp
qed


text \<open>The theorem at \<open>file_size = 10\<close>, \<open>block_size = 4\<close> and two workers, the first of
  which meets interruptions and short transfers.\<close>

theorem coverage_witness:
  "(0::int) < 10 \<and> (0::int) < 4 \<and> (0::int) < 2 \<and> (10::int) + 2 * 4 < 2 ^ 63
   \<and> fst (copy_blocks bumpy_child 10 0 2 4) = Returns
   \<and> fst (copy_blocks plain_child 10 1 2 4) = Returns
   \<and> ranges (snd (copy_blocks bumpy_child 10 0 2 4)) = [(0, 4), (8, 2)]
   \<and> ranges (snd (copy_blocks plain_child 10 1 2 4)) = [(4, 4)]
   \<and> (\<Union>i \<in> {0 ..< 2}. range_bytes (ranges (snd
         (copy_blocks (if i = 0 then bumpy_child else plain_child) 10 i 2 4)))) = {0 ..< 10}
   \<and> range_bytes (ranges (snd (copy_blocks bumpy_child 10 0 2 4)))
         \<inter> range_bytes (ranges (snd (copy_blocks plain_child 10 1 2 4))) = {}
   \<and> moved_bytes (writes (snd (copy_blocks bumpy_child 10 0 2 4)))
         = range_bytes (ranges (snd (copy_blocks bumpy_child 10 0 2 4)))"
proof -
  have hyps: "(0::int) < 10" "(0::int) < 4" "(0::int) < 2" "(10::int) + 2 * 4 < 2 ^ 63"
    by simp_all
  have r0: "fst (copy_blocks bumpy_child 10 0 2 4) = Returns
      \<and> ranges (snd (copy_blocks bumpy_child 10 0 2 4)) = [(0, 4), (8, 2)]"
    by code_simp
  have r1: "fst (copy_blocks plain_child 10 1 2 4) = Returns
      \<and> ranges (snd (copy_blocks plain_child 10 1 2 4)) = [(4, 4)]"
    by code_simp
  have all: "\<forall>i \<in> {0 ..< 2}.
      fst (copy_blocks (if i = 0 then bumpy_child else plain_child) 10 i 2 4) = Returns"
  proof
    fix i :: int
    assume "i \<in> {0 ..< 2}"
    then have "i = 0 \<or> i = 1" by auto
    then show "fst (copy_blocks (if i = 0 then bumpy_child else plain_child) 10 i 2 4) = Returns"
      using r0 r1 by auto
  qed
  note inst = coverage [OF hyps, of "\<lambda>i. if i = 0 then bumpy_child else plain_child", OF all]
  have in0: "(0::int) \<in> {0 ..< 2}" and in1: "(1::int) \<in> {0 ..< 2}" by simp_all
  have disj: "range_bytes (ranges (snd (copy_blocks bumpy_child 10 0 2 4)))
         \<inter> range_bytes (ranges (snd (copy_blocks plain_child 10 1 2 4))) = {}"
    using inst [THEN conjunct2, THEN conjunct1, rule_format, OF in0 in1] by simp
  have mv: "moved_bytes (writes (snd (copy_blocks bumpy_child 10 0 2 4)))
         = range_bytes (ranges (snd (copy_blocks bumpy_child 10 0 2 4)))"
    using inst [THEN conjunct2, THEN conjunct2, rule_format, OF in0] by simp
  show ?thesis
    using hyps r0 [THEN conjunct1] r1 [THEN conjunct1] r0 [THEN conjunct2] r1 [THEN conjunct2]
      inst [THEN conjunct1] disj mv
    by (intro conjI) assumption+
qed

text \<open>Claim C1 as stated fails where the additions wrap: with a block size of \<open>2^61\<close>
  and nine workers the stride \<open>(9 - 1) * 2^61\<close> is \<open>0\<close> modulo \<open>2^64\<close>; for a file of
  \<open>3 * 2^61\<close> bytes workers 0 and 1 both return, and both have processed the block that
  starts at \<open>2^61\<close>.\<close>

theorem coverage_counterexample:
  "fst (copy_blocks plain_child (3 * 2 ^ 61) 0 9 (2 ^ 61)) = Returns
   \<and> fst (copy_blocks plain_child (3 * 2 ^ 61) 1 9 (2 ^ 61)) = Returns
   \<and> 2 ^ 61 \<in> range_bytes (ranges (snd (copy_blocks plain_child (3 * 2 ^ 61) 0 9 (2 ^ 61))))
              \<inter> range_bytes (ranges (snd (copy_blocks plain_child (3 * 2 ^ 61) 1 9 (2 ^ 61))))"
proof -
  have r0: "fst (copy_blocks plain_child (3 * 2 ^ 61) 0 9 (2 ^ 61)) = Returns
      \<and> ranges (snd (copy_blocks plain_child (3 * 2 ^ 61) 0 9 (2 ^ 61)))
           = [(0, 2 ^ 61), (2 ^ 61, 2 ^ 61), (2 * 2 ^ 61, 2 ^ 61)]"
    by code_simp
  have r1: "fst (copy_blocks plain_child (3 * 2 ^ 61) 1 9 (2 ^ 61)) = Returns
      \<and> ranges (snd (copy_blocks plain_child (3 * 2 ^ 61) 1 9 (2 ^ 61)))
           = [(2 ^ 61, 2 ^ 61), (2 * 2 ^ 61, 2 ^ 61)]"
    by code_simp
  show ?thesis using r0 r1 by (simp add: range_bytes_def)
qed

subsection \<open>C2: the ranges of one worker\<close>

text \<open>
  Claim C2, amended. For a worker with \<open>0 \<le> worker_index < worker_count\<close>, a positive
  block size and \<open>file_size + worker_count * block_size < 2^63\<close>, the passes of
  \<^verbatim>\<open>copy_blocks\<close> process the planner's sequence: the first range starts at
  \<open>worker_index * block_size\<close>, each further one \<open>worker_count * block_size\<close> later, each
  is \<open>min block_size (file_size - offset)\<close> long, and the sequence ends once the offset
  has reached \<open>file_size\<close>. A worker that returns has processed exactly this sequence; at
  any earlier moment it has processed a prefix of it; and it does return when both files
  open, no call of \<^verbatim>\<open>sendfile\<close> fails other than transiently, and it is observed for
  long enough.
\<close>

theorem worker_ranges:
  assumes "0 \<le> worker_index" "worker_index < worker_count" "0 < bs" "0 \<le> fs"
    and "fs + worker_count * bs < 2 ^ 63"
  shows "(fst (copy_blocks ce fs worker_index worker_count bs) = Returns \<longrightarrow>
            ranges (snd (copy_blocks ce fs worker_index worker_count bs))
              = planned_ranges fs bs worker_count worker_index)
       \<and> (\<exists>rest. planned_ranges fs bs worker_count worker_index
              = ranges (snd (copy_blocks ce fs worker_index worker_count bs)) @ rest)
       \<and> (src_ok ce \<and> dst_ok ce \<and> (\<forall>ev \<in> set (events ce). harmless ev)
            \<and> nat fs \<le> moves (events ce) \<and> nat fs \<le> passes ce \<longrightarrow>
            fst (copy_blocks ce fs worker_index worker_count bs) = Returns)"
  using assms by (rule copy_blocks_planned)

text \<open>The theorem at \<open>file_size = 10\<close>, \<open>block_size = 4\<close>, two workers, worker 0, with
  interruptions and short transfers on the way.\<close>

theorem worker_ranges_witness:
  "(0::int) \<le> 0 \<and> (0::int) < 2 \<and> (0::int) < 4 \<and> (0::int) \<le> 10 \<and> (10::int) + 2 * 4 < 2 ^ 63
   \<and> src_ok bumpy_child \<and> dst_ok bumpy_child \<and> list_all harmless (events bumpy_child)
   \<and> nat 10 \<le> moves (events bumpy_child) \<and> nat 10 \<le> passes bumpy_child
   \<and> fst (copy_blocks bumpy_child 10 0 2 4) = Returns
   \<and> ranges (snd (copy_blocks bumpy_child 10 0 2 4)) = [(0, 4), (8, 2)]"
proof -
  have hyps: "(0::int) \<le> 0" "(0::int) < 2" "(0::int) < 4" "(0::int) \<le> 10"
    "(10::int) + 2 * 4 < 2 ^ 63"
    by simp_all
  have env: "src_ok bumpy_child \<and> dst_ok bumpy_child
      \<and> (\<forall>ev \<in> set (events bumpy_child). harmless ev)
      \<and> nat 10 \<le> moves (events bumpy_child) \<and> nat 10 \<le> passes bumpy_child"
    by code_simp
  have plan: "planned_ranges 10 4 2 0 = [(0, 4), (8, 2)]"
    by code_simp
  note inst = worker_ranges [OF hyps, of bumpy_child]
  from inst env have ret: "fst (copy_blocks bumpy_child 10 0 2 4) = Returns" by blast
  with inst plan have "ranges (snd (copy_blocks bumpy_child 10 0 2 4)) = [(0, 4), (8, 2)]"
    by simp
  with hyps env ret show ?thesis by (simp add: list_all_iff)
qed

text \<open>Claim C2 as stated fails where the additions wrap: with a block size of \<open>2^61\<close>
  and nine workers, \<open>(9 - 1) * 2^61\<close> is \<open>0\<close> modulo \<open>2^64\<close>, and worker 0 walks
  through the first three blocks of a file of \<open>3 * 2^61\<close> bytes, where the planner gives
  it one.\<close>

theorem worker_ranges_counterexample:
  "fst (copy_blocks plain_child (3 * 2 ^ 61) 0 9 (2 ^ 61)) = Returns
   \<and> ranges (snd (copy_blocks plain_child (3 * 2 ^ 61) 0 9 (2 ^ 61)))
       = [(0, 2 ^ 61), (2 ^ 61, 2 ^ 61), (2 * 2 ^ 61, 2 ^ 61)]
   \<and> planned_ranges (3 * 2 ^ 61) (2 ^ 61) 9 0 = [(0, 2 ^ 61)]"
  by code_simp

subsection \<open>C3: transient and fatal results of the transfer\<close>

text \<open>
  Claim C3 does not hold on the code for a result of zero. After a result that is zero or
  negative \<^verbatim>\<open>copy_blocks\<close> decides by \<^verbatim>\<open>errno\<close>, and a call of \<^verbatim>\<open>sendfile\<close> that
  returns 0 leaves \<^verbatim>\<open>errno\<close> as an earlier call set it. Take one worker, blocks of 4
  bytes and a source of 10 bytes that is cut to 4 bytes after the first block has been
  moved, so that every later call returns 0. A worker that was interrupted once before
  the first block still reads \<open>EINTR\<close>: whatever the number \<open>k\<close> of zero results, it is
  still in the inner loop after them, with both files open, \<open>k + 2\<close> calls made and
  nothing moved but the first block, and the parent stays blocked in \<^verbatim>\<open>wait\<close>. The
  worker that was not interrupted takes the first zero result for fatal, closes both
  files and exits with status 1.
\<close>

theorem transfer_errors:
  "child_process (starved_child k) 10 0 1 4
     = (Unfinished,
        \<lparr>offset = 4, dest_offset = 4, dest_pos = 4, errno_now = EINTR, source_open = True,
         dest_open = True, seeks = [(0, 0), (4, 4)], writes = [(0, 0, 4)], ranges = [(0, 4)],
         calls = k + 2\<rparr>)
   \<and> parent (perform_copy (starved_run k) 1 4 empty_slot) = Blocked
   \<and> child_process (cut_child (Suc k)) 10 0 1 4
     = (Exits 1,
        \<lparr>offset = 4, dest_offset = 4, dest_pos = 4, errno_now = EIO, source_open = False,
         dest_open = False, seeks = [(0, 0), (4, 4)], writes = [(0, 0, 4)], ranges = [(0, 4)],
         calls = 2\<rparr>)"
  using starved_child_spins [of k] starved_run_blocks [of k empty_slot] cut_child_exits [of k]
  by (intro conjI)

subsection \<open>C4: exit codes\<close>



subsection \<open>C5: the grid of the benchmark search\<close>

text \<open>
  Claim C5. On a machine with \<open>C\<close> processors the search collects its runs in the order
  of the grid: worker counts \<open>C * 1\<close> to \<open>C * 6\<close> in the outer loop, block sizes 64, 128,
  256, 512 and 1024 KiB (shift values 6 to 10) in the inner loop. At every end of the
  search the runs collected are a prefix of the grid, never more than 30 of them, far
  below the cap of 1000, and the warning about the cap is never printed. When
  \<^verbatim>\<open>malloc\<close> succeeds, the six products \<open>k * C\<close> fit into an \<^verbatim>\<open>int\<close> and in each of the
  30 passes the cache can be dropped, the copy of that pass returns and the destination
  can be unlinked, the search completes: it has made the 30 copies of the grid, one per
  pass, has collected exactly the \<open>6 * 5 = 30\<close> runs of the grid, and reports on them.
  When pass \<open>M\<close> is the first in which one of the three fails, the search ends there, with
  \<^verbatim>\<open>exit(1)\<close> or blocked in \<^verbatim>\<open>wait\<close>, having collected the first \<open>M\<close> runs of the grid.
  Nothing fails in a pass exactly when the cache can be dropped, \<^verbatim>\<open>stat\<close>, the creation of
  the destination and every \<^verbatim>\<open>fork\<close> succeed, every worker ends, and the destination can be
  unlinked.
\<close>

theorem benchmark_grid:
  "length (results (snd (find_optimal_settings wd))) \<le> 30 \<and> 30 \<le> MAX_RUNS
   \<and> \<not> warned (snd (find_optimal_settings wd))
   \<and> (\<exists>rest. grid (nprocs_online wd)
         = map settings_of (results (snd (find_optimal_settings wd))) @ rest)
   \<and> (fst (find_optimal_settings wd) = Done rep \<longrightarrow>
         map settings_of (results (snd (find_optimal_settings wd))) = grid (nprocs_online wd)
         \<and> length (results (snd (find_optimal_settings wd))) = 6 * 5)
   \<and> (malloc_ok wd \<and> 0 \<le> nprocs_online wd \<and> 6 * nprocs_online wd \<le> INT_MAX
        \<and> (\<forall>m<30. smooth wd m) \<longrightarrow>
         fst (find_optimal_settings wd)
           = Done (report_runs (results (snd (find_optimal_settings wd))))
         \<and> length (results (snd (find_optimal_settings wd))) = 6 * 5
         \<and> map settings_of (results (snd (find_optimal_settings wd))) = grid (nprocs_online wd)
         \<and> copies (snd (find_optimal_settings wd)) = map (nth_copy wd) [0 ..< 30])
   \<and> (malloc_ok wd \<and> 0 \<le> nprocs_online wd \<and> 6 * nprocs_online wd \<le> INT_MAX
        \<and> M < 30 \<and> (\<forall>m<M. smooth wd m) \<and> \<not> smooth wd M \<longrightarrow>
         (fst (find_optimal_settings wd) = Exit 1 \<or> fst (find_optimal_settings wd) = Blocked)
         \<and> length (results (snd (find_optimal_settings wd))) = M)
   \<and> (smooth wd m \<longleftrightarrow>
         drop_ok wd m \<and> unlink_ok wd m
         \<and> (\<exists>fs. stat_size (run wd m) = Some fs \<and> creat_ok (run wd m)
              \<and> (\<forall>j \<in> {0 ..< (int (m div 5) + 1) * nprocs_online wd}.
                   fork_ok (run wd m) j
                   \<and> fst (child_process (child (run wd m) j) fs j
                          ((int (m div 5) + 1) * nprocs_online wd) (block_sizes ! (m mod 5)))
                       \<noteq> Unfinished)))"
proof -
  note spec = find_optimal_settings_spec [of wd]
  have cap: "30 \<le> MAX_RUNS" by (simp add: MAX_RUNS_def)
  have fin: "fst (find_optimal_settings wd)
           = Done (report_runs (results (snd (find_optimal_settings wd))))
         \<and> length (results (snd (find_optimal_settings wd))) = 6 * 5
         \<and> map settings_of (results (snd (find_optimal_settings wd))) = grid (nprocs_online wd)
         \<and> copies (snd (find_optimal_settings wd)) = map (nth_copy wd) [0 ..< 30]"
    if h: "malloc_ok wd \<and> 0 \<le> nprocs_online wd \<and> 6 * nprocs_online wd \<le> INT_MAX
        \<and> (\<forall>m<30. smooth wd m)"
  proof -
    have ii: "in_int (6 * nprocs_online wd)" using h by (intro in_int_six) simp_all
    have m: "malloc_ok wd" and s: "\<forall>m<30. smooth wd m" using h by simp_all
    note f = find_optimal_settings_smooth [OF m ii s]
    have l: "length (results (snd (find_optimal_settings wd))) = 6 * 5" using f(2) by simp
    show ?thesis using f(1) l f(3) f(4) by (intro conjI) assumption+
  qed
  have cut: "(fst (find_optimal_settings wd) = Exit 1 \<or> fst (find_optimal_settings wd) = Blocked)
         \<and> length (results (snd (find_optimal_settings wd))) = M"
    if h: "malloc_ok wd \<and> 0 \<le> nprocs_online wd \<and> 6 * nprocs_online wd \<le> INT_MAX
        \<and> M < 30 \<and> (\<forall>m<M. smooth wd m) \<and> \<not> smooth wd M"
  proof -
    have six: "in_int (6 * nprocs_online wd)" using h by (intro in_int_six) simp_all
    have m: "malloc_ok wd" and lt: "M < 30" and s: "\<forall>m<M. smooth wd m" and n: "\<not> smooth wd M"
      using h by simp_all
    note st = find_optimal_settings_stumbles [OF m lt in_int_pass [OF six lt] s n]
    have "fst (find_optimal_settings wd) = Exit 1 \<or> fst (find_optimal_settings wd) = Blocked"
      unfolding st(1) by (simp add: fail_end_def)
    then show ?thesis using st(2) by simp
  qed
  have complete: "fst (find_optimal_settings wd) = Done rep \<longrightarrow>
         map settings_of (results (snd (find_optimal_settings wd))) = grid (nprocs_online wd)
         \<and> length (results (snd (find_optimal_settings wd))) = 6 * 5"
  proof (intro impI conjI)
    assume d: "fst (find_optimal_settings wd) = Done rep"
    show "map settings_of (results (snd (find_optimal_settings wd))) = grid (nprocs_online wd)"
      using spec d by blast
    have "length (results (snd (find_optimal_settings wd))) = 30" using spec d by blast
    then show "length (results (snd (find_optimal_settings wd))) = 6 * 5" by simp
  qed
  show ?thesis
    apply (intro conjI)
    subgoal using spec by blast
    subgoal by (rule cap)
    subgoal using spec by blast
    subgoal using spec by blast
    subgoal by (rule complete)
    subgoal by (rule impI) (erule fin)
    subgoal by (rule impI) (erule cut)
    subgoal by (rule smooth_iff)
    done
qed

text \<open>The theorem on a machine with one processor and a source of 10 bytes: when nothing
  fails, and when the destination cannot be unlinked after the copy of pass 7.\<close>

theorem benchmark_grid_witness:
  "stat_size (run calm_world 0) = Some 10
   \<and> malloc_ok calm_world \<and> 0 \<le> nprocs_online calm_world
   \<and> 6 * nprocs_online calm_world \<le> INT_MAX
   \<and> list_all (smooth calm_world) [0 ..< 30]
   \<and> fst (find_optimal_settings calm_world)
       = Done (report_runs (results (snd (find_optimal_settings calm_world))))
   \<and> length (results (snd (find_optimal_settings calm_world))) = 30
   \<and> map settings_of (results (snd (find_optimal_settings calm_world)))
       = [(1, 65536, 6), (1, 131072, 7), (1, 262144, 8), (1, 524288, 9), (1, 1048576, 10),
          (2, 65536, 6), (2, 131072, 7), (2, 262144, 8), (2, 524288, 9), (2, 1048576, 10),
          (3, 65536, 6), (3, 131072, 7), (3, 262144, 8), (3, 524288, 9), (3, 1048576, 10),
          (4, 65536, 6), (4, 131072, 7), (4, 262144, 8), (4, 524288, 9), (4, 1048576, 10),
          (5, 65536, 6), (5, 131072, 7), (5, 262144, 8), (5, 524288, 9), (5, 1048576, 10),
          (6, 65536, 6), (6, 131072, 7), (6, 262144, 8), (6, 524288, 9), (6, 1048576, 10)]
   \<and> copies (snd (find_optimal_settings calm_world)) = map (nth_copy calm_world) [0 ..< 30]
   \<and> list_all (smooth (calm_world\<lparr>unlink_ok := (\<lambda>k. k \<noteq> 7)\<rparr>)) [0 ..< 7]
   \<and> \<not> smooth (calm_world\<lparr>unlink_ok := (\<lambda>k. k \<noteq> 7)\<rparr>) 7
   \<and> fst (find_optimal_settings (calm_world\<lparr>unlink_ok := (\<lambda>k. k \<noteq> 7)\<rparr>)) = Exit 1
   \<and> map settings_of (results (snd (find_optimal_settings
          (calm_world\<lparr>unlink_ok := (\<lambda>k. k \<noteq> 7)\<rparr>))))
       = [(1, 65536, 6), (1, 131072, 7), (1, 262144, 8), (1, 524288, 9), (1, 1048576, 10),
          (2, 65536, 6), (2, 131072, 7)]"
proof -
  let ?wd = "calm_world\<lparr>unlink_ok := (\<lambda>k. k \<noteq> 7)\<rparr>"
  have env: "malloc_ok calm_world" "0 \<le> nprocs_online calm_world"
    "6 * nprocs_online calm_world \<le> INT_MAX"
    by (simp_all add: calm_world_def INT_MAX_def)
  have src: "stat_size (run calm_world 0) = Some 10" by (simp add: calm_world_def calm_run_def)
  have one: "nprocs_online calm_world = 1" "nprocs_online ?wd = 1"
    by (simp_all add: calm_world_def)
  have env': "malloc_ok ?wd" "0 \<le> nprocs_online ?wd" "6 * nprocs_online ?wd \<le> INT_MAX"
    by (simp_all add: calm_world_def INT_MAX_def)
  have sm: "\<forall>m<30. smooth calm_world m" using smooth_calm_world by simp
  have sm': "smooth ?wd m \<longleftrightarrow> m \<noteq> 7" if "m < 30" for m
    using smooth_calm [OF that, of ?wd "(7 * int m) mod 11"] by (simp add: calm_world_def)
  have before: "\<forall>m<7. smooth ?wd m" using sm' by simp
  have at: "\<not> smooth ?wd 7" using sm' [of 7] by simp
  have g: "grid 1
       = [(1, 65536, 6), (1, 131072, 7), (1, 262144, 8), (1, 524288, 9), (1, 1048576, 10),
          (2, 65536, 6), (2, 131072, 7), (2, 262144, 8), (2, 524288, 9), (2, 1048576, 10),
          (3, 65536, 6), (3, 131072, 7), (3, 262144, 8), (3, 524288, 9), (3, 1048576, 10),
          (4, 65536, 6), (4, 131072, 7), (4, 262144, 8), (4, 524288, 9), (4, 1048576, 10),
          (5, 65536, 6), (5, 131072, 7), (5, 262144, 8), (5, 524288, 9), (5, 1048576, 10),
          (6, 65536, 6), (6, 131072, 7), (6, 262144, 8), (6, 524288, 9), (6, 1048576, 10)]"
    by (simp add: grid_def grid_row_def)
  have hyp: "malloc_ok calm_world \<and> 0 \<le> nprocs_online calm_world
      \<and> 6 * nprocs_online calm_world \<le> INT_MAX \<and> (\<forall>m<30. smooth calm_world m)"
    using env sm by (intro conjI)
  note full = benchmark_grid [where wd = calm_world, THEN conjunct2, THEN conjunct2,
      THEN conjunct2, THEN conjunct2, THEN conjunct2, THEN conjunct1, THEN mp, OF hyp]
  have a1: "fst (find_optimal_settings calm_world)
        = Done (report_runs (results (snd (find_optimal_settings calm_world))))"
    using full by (rule conjunct1)
  have a2: "length (results (snd (find_optimal_settings calm_world))) = 30"
    using full [THEN conjunct2, THEN conjunct1] by simp
  have a3: "map settings_of (results (snd (find_optimal_settings calm_world)))
       = [(1, 65536, 6), (1, 131072, 7), (1, 262144, 8), (1, 524288, 9), (1, 1048576, 10),
          (2, 65536, 6), (2, 131072, 7), (2, 262144, 8), (2, 524288, 9), (2, 1048576, 10),
          (3, 65536, 6), (3, 131072, 7), (3, 262144, 8), (3, 524288, 9), (3, 1048576, 10),
          (4, 65536, 6), (4, 131072, 7), (4, 262144, 8), (4, 524288, 9), (4, 1048576, 10),
          (5, 65536, 6), (5, 131072, 7), (5, 262144, 8), (5, 524288, 9), (5, 1048576, 10),
          (6, 65536, 6), (6, 131072, 7), (6, 262144, 8), (6, 524288, 9), (6, 1048576, 10)]"
    using full [THEN conjunct2, THEN conjunct2, THEN conjunct1] by (simp only: one g)
  have a4: "copies (snd (find_optimal_settings calm_world)) = map (nth_copy calm_world) [0 ..< 30]"
    using full [THEN conjunct2, THEN conjunct2, THEN conjunct2] .
  have hyp': "malloc_ok ?wd \<and> 0 \<le> nprocs_online ?wd \<and> 6 * nprocs_online ?wd \<le> INT_MAX
      \<and> (7::nat) < 30 \<and> (\<forall>m<7. smooth ?wd m) \<and> \<not> smooth ?wd 7"
    using env' before at by (intro conjI) simp_all
  note inst = benchmark_grid [where wd = ?wd and M = 7]
  note stop = inst [THEN conjunct2, THEN conjunct2, THEN conjunct2, THEN conjunct2,
      THEN conjunct2, THEN conjunct2, THEN conjunct1, THEN mp, OF hyp']
  have b2: "length (results (snd (find_optimal_settings ?wd))) = 7"
    using stop by (rule conjunct2)
  obtain rest where
    "grid (nprocs_online ?wd) = map settings_of (results (snd (find_optimal_settings ?wd))) @ rest"
    using inst [THEN conjunct2, THEN conjunct2, THEN conjunct2, THEN conjunct1] by (rule exE)
  then have "take 7 (grid 1)
      = take 7 (map settings_of (results (snd (find_optimal_settings ?wd))) @ rest)"
    by (simp only: one)
  also have "\<dots> = map settings_of (results (snd (find_optimal_settings ?wd)))"
    using b2 by simp
  finally have c: "map settings_of (results (snd (find_optimal_settings ?wd)))
      = [(1, 65536, 6), (1, 131072, 7), (1, 262144, 8), (1, 524288, 9), (1, 1048576, 10),
          (2, 65536, 6), (2, 131072, 7)]"
    by (simp add: g)
  have d: "fst (find_optimal_settings ?wd) = Exit 1"
  proof -
    have "drop_ok ?wd 7" by (simp add: calm_world_def)
    moreover have "returned (parent (nth_copy ?wd 7))"
      using smooth_calm_world [of 7] by (simp add: smooth_def nth_copy_def calm_world_def)
    ultimately have "fail_end ?wd 7 = (Exit 1 :: report proc)"
      by (auto simp: fail_end_def returned_Done)
    moreover have "in_int ((int (7 div 5) + 1) * nprocs_online ?wd)"
      by (simp add: in_int_def INT_MIN_def INT_MAX_def calm_world_def)
    ultimately show ?thesis
      using find_optimal_settings_stumbles(1) [OF env'(1) _ _ before at] by simp
  qed
  have l1: "list_all (smooth calm_world) [0 ..< 30]" using sm by (simp add: list_all_iff)
  have l2: "list_all (smooth ?wd) [0 ..< 7]" using before by (simp add: list_all_iff)
  show ?thesis
    using src env l1 a1 a2 a3 a4 l2 at d c by (intro conjI) assumption+
qed

subsection \<open>C6: sorting and the report\<close>

text \<open>
  Claim C6. After the sweep the collected runs are sorted by ascending elapsed time (the
  sorted array is a rearrangement of the collected runs); the first list of the report
  holds the first 5 entries of the sorted array, the second list holds its last 5
  entries, the slowest first; with fewer than 5 runs both lists hold all of them; and a
  search that completes reports exactly this for the runs it collected.
\<close>

theorem report_order:
  "sorted_wrt (\<lambda>a b. elapsed_time a \<le> elapsed_time b) (sorted_runs (report_runs rs))
   \<and> mset (sorted_runs (report_runs rs)) = mset rs
   \<and> map snd (fastest (report_runs rs)) = take 5 (sorted_runs (report_runs rs))
   \<and> map snd (slowest (report_runs rs))
       = rev (drop (length rs - 5) (sorted_runs (report_runs rs)))
   \<and> (length rs < 5 \<longrightarrow>
         map snd (fastest (report_runs rs)) = sorted_runs (report_runs rs)
         \<and> map snd (slowest (report_runs rs)) = rev (sorted_runs (report_runs rs)))
   \<and> (fst (find_optimal_settings wd) = Done rep \<longrightarrow>
         rep = report_runs (results (snd (find_optimal_settings wd))))"
proof -
  note spec = report_runs_spec [of rs]
  have len: "length (sorted_runs (report_runs rs)) = length rs"
    by (simp add: report_runs_def Let_def length_qsort)
  have few: "map snd (fastest (report_runs rs)) = sorted_runs (report_runs rs)
         \<and> map snd (slowest (report_runs rs)) = rev (sorted_runs (report_runs rs))"
    if "length rs < 5"
  proof -
    have "take 5 (sorted_runs (report_runs rs)) = sorted_runs (report_runs rs)"
      using that len by simp
    moreover have "length rs - 5 = 0" using that by simp
    ultimately show ?thesis using spec by simp
  qed
  have rep: "rep = report_runs (results (snd (find_optimal_settings wd)))"
    if "fst (find_optimal_settings wd) = Done rep"
    using find_optimal_settings_spec [of wd] that by blast
  show ?thesis
    apply (intro conjI impI)
    subgoal using spec by blast
    subgoal using spec by blast
    subgoal using spec by blast
    subgoal using spec by blast
    subgoal using few by blast
    subgoal using few by blast
    subgoal using rep by blast
    done
qed

text \<open>The theorem for three runs, and for the search on a machine on which nothing
  fails.\<close>

theorem report_order_witness:
  "length three_runs < 5
   \<and> sorted_runs (report_runs three_runs)
       = [\<lparr>num_processes = 1, block_size = 131072, elapsed_time = 1, shift_value = 7\<rparr>,
          \<lparr>num_processes = 1, block_size = 262144, elapsed_time = 2, shift_value = 8\<rparr>,
          \<lparr>num_processes = 1, block_size = 65536, elapsed_time = 3, shift_value = 6\<rparr>]
   \<and> map snd (fastest (report_runs three_runs)) = sorted_runs (report_runs three_runs)
   \<and> map snd (slowest (report_runs three_runs)) = rev (sorted_runs (report_runs three_runs))
   \<and> map fst (slowest (report_runs three_runs)) = [1, 2, 3]
   \<and> fst (find_optimal_settings idle_world)
       = Done (report_runs (results (snd (find_optimal_settings idle_world))))"
proof -
  have few: "length three_runs < 5" by (simp add: three_runs_def)
  have fin: "fst (find_optimal_settings idle_world)
       = Done (report_runs (results (snd (find_optimal_settings idle_world))))"
  proof -
    have "\<forall>m<30. smooth idle_world m" using smooth_idle_world by simp
    then obtain rep where rep: "fst (find_optimal_settings idle_world) = Done rep"
      using find_optimal_settings_completes [of idle_world]
      by (auto simp: idle_world_def calm_world_def INT_MAX_def)
    then show ?thesis using report_order [of three_runs idle_world rep] by simp
  qed
  note inst = report_order [of three_runs idle_world
      "report_runs (results (snd (find_optimal_settings idle_world)))"]
  have sorted: "sorted_runs (report_runs three_runs)
       = [\<lparr>num_processes = 1, block_size = 131072, elapsed_time = 1, shift_value = 7\<rparr>,
          \<lparr>num_processes = 1, block_size = 262144, elapsed_time = 2, shift_value = 8\<rparr>,
          \<lparr>num_processes = 1, block_size = 65536, elapsed_time = 3, shift_value = 6\<rparr>]"
    by (simp add: report_runs_def three_runs_def compare_run_results_def Let_def)
  have ranks: "map fst (slowest (report_runs three_runs)) = [1, 2, 3]"
    by (simp add: report_runs_def three_runs_def compare_run_results_def slowest_from.simps Let_def)
  show ?thesis using inst few fin sorted ranks by simp
qed

subsection \<open>C7: from the shift value to the block size\<close>




subsection \<open>C8: an empty source\<close>

text \<open>
  Claim C8. When \<^verbatim>\<open>stat\<close> reports a size of 0 and the destination can be created,
  \<^verbatim>\<open>perform_copy\<close> leaves a destination of length 0, and no worker calls \<^verbatim>\<open>sendfile\<close>
  or moves a byte, for every worker count and block size; every worker ends; and when no
  \<^verbatim>\<open>fork\<close> fails, there are \<open>max 0 worker_count\<close> workers and the parent returns its
  result, with the elapsed time measured, rather than exiting.
\<close>

theorem empty_file:
  assumes "stat_size env = Some 0" "creat_ok env"
  shows "dest_length (perform_copy env np bs r) = Some 0
       \<and> (\<forall>k \<in> set (children (perform_copy env np bs r)).
             calls (snd k) = 0 \<and> writes (snd k) = [] \<and> fst k \<noteq> Unfinished)
       \<and> ((\<forall>i. fork_ok env i) \<longrightarrow>
             length (children (perform_copy env np bs r)) = nat np
           \<and> parent (perform_copy env np bs r)
               = Done (r\<lparr>num_processes := np, block_size := bs,
                         elapsed_time := elapsed (start_time env) (end_time env)\<rparr>))"
proof -
  obtain ok kids where sp: "spawn env 0 np bs 0 [] = (ok, kids)"
    by (cases "spawn env 0 np bs 0 []")
  have kids: "calls (snd k) = 0 \<and> writes (snd k) = [] \<and> fst k \<noteq> Unfinished" if "k \<in> set kids" for k
    using spawn_children [OF sp that] child_process_empty by auto
  then have wl: "written_length kids = 0" by (intro written_length_none) simp
  have un: "\<not> (\<exists>k \<in> set kids. fst k = Unfinished)" using kids by blast
  have pc: "perform_copy env np bs r =
      (if ok then
         \<lparr>parent = Done (r\<lparr>num_processes := np, block_size := bs,
                           elapsed_time := elapsed (start_time env) (end_time env)\<rparr>),
          children = kids, dest_length = Some 0\<rparr>
       else \<lparr>parent = Exit 1, children = kids, dest_length = Some 0\<rparr>)"
    using assms sp wl un by (simp add: perform_copy_def)
  have all: "ok \<and> length kids = nat np" if "\<forall>i. fork_ok env i"
    using spawn_all_ok [OF that, of 0 np bs 0 "[]"] sp by auto
  show ?thesis using pc kids all by auto
qed


text \<open>The theorem for three workers and blocks of 64 KiB on an empty source.\<close>

theorem empty_file_witness:
  "stat_size empty_run = Some 0 \<and> creat_ok empty_run \<and> (\<forall>i. fork_ok empty_run i)
   \<and> length (children (perform_copy empty_run 3 65536 empty_slot)) = 3
   \<and> list_all (\<lambda>k. calls (snd k) = 0 \<and> writes (snd k) = [] \<and> fst k \<noteq> Unfinished)
         (children (perform_copy empty_run 3 65536 empty_slot))
   \<and> dest_length (perform_copy empty_run 3 65536 empty_slot) = Some 0
   \<and> parent (perform_copy empty_run 3 65536 empty_slot)
       = Done \<lparr>num_processes = 3, block_size = 65536, elapsed_time = 5 / 2, shift_value = 0\<rparr>"
proof -
  have hyps: "stat_size empty_run = Some 0" "creat_ok empty_run"
    by (simp_all add: empty_run_def calm_run_def)
  have forks: "\<forall>i. fork_ok empty_run i"
    by (simp add: empty_run_def calm_run_def)
  have time: "elapsed (start_time empty_run) (end_time empty_run) = 5 / 2"
    by (simp add: empty_run_def calm_run_def elapsed_def)
  note inst = empty_file [OF hyps, of 3 65536 empty_slot]
  show ?thesis using inst hyps forks time by (simp add: empty_slot_def list_all_iff)
qed

subsection \<open>C9: destination offset and source offset move together\<close>

text \<open>
  Claim C9, amended. For a worker with \<open>0 \<le> worker_index < worker_count\<close>, a positive
  block size and \<open>file_size + worker_count * block_size < 2^63\<close>: at every \<^verbatim>\<open>lseek\<close>
  that starts a block transfer the destination offset equals the source offset, every
  call of \<^verbatim>\<open>sendfile\<close> writes its bytes at the destination position equal to the source
  offset it read them from, and the offsets at which the passes start are those of the
  planner, \<open>worker_index * block_size\<close> and then steps of \<open>worker_count * block_size\<close>.
\<close>

theorem offsets_aligned:
  assumes "0 \<le> worker_index" "worker_index < worker_count" "0 < bs" "0 \<le> fs"
    and "fs + worker_count * bs < 2 ^ 63"
  shows "(\<forall>(off, dst) \<in> set (seeks (snd (copy_blocks ce fs worker_index worker_count bs))). dst = off)
       \<and> (\<forall>(src, dst, len) \<in> set (writes (snd (copy_blocks ce fs worker_index worker_count bs))).
             dst = src)
       \<and> (\<exists>rest. map (\<lambda>(off, len). (off, off)) (planned_ranges fs bs worker_count worker_index)
             = seeks (snd (copy_blocks ce fs worker_index worker_count bs)) @ rest)"
proof -
  have fits: "fits fs worker_count bs" using assms by (simp add: fits_def)
  show ?thesis
  proof (cases "src_ok ce \<and> dst_ok ce")
    case False
    then show ?thesis using copy_blocks_no_open [OF False] by auto
  next
    case True
    then obtain w where w: "copy_blocks ce fs worker_index worker_count bs
          = copy_loop (passes ce) fs worker_count bs (events ce) w"
      "offset w = worker_index * bs" "dest_offset w = worker_index * bs" "seeks w = []"
      "writes w = []"
      using copy_blocks_start [OF fits assms(1,2)] by blast
    have o: "0 \<le> offset w" using w assms by simp
    have d: "offset w < fs \<longrightarrow> dest_offset w = offset w" using w by simp
    have a: "aligned w" using w by (simp add: aligned_def)
    obtain e w' where r: "copy_loop (passes ce) fs worker_count bs (events ce) w = (e, w')"
      by (cases "copy_loop (passes ce) fs worker_count bs (events ce) w")
    have "aligned w'" by (rule copy_loop_aligned [OF fits o d a r])
    moreover note copy_loop_seeks [OF fits o d r]
    ultimately show ?thesis using w r by (simp add: planned_ranges_def aligned_def)
  qed
qed

text \<open>The theorem at \<open>file_size = 10\<close>, \<open>block_size = 4\<close>, two workers, worker 0: two
  seeks and three writes, the last block in two pieces.\<close>

theorem offsets_aligned_witness:
  "(0::int) \<le> 0 \<and> (0::int) < 2 \<and> (0::int) < 4 \<and> (0::int) \<le> 10 \<and> (10::int) + 2 * 4 < 2 ^ 63
   \<and> seeks (snd (copy_blocks bumpy_child 10 0 2 4)) = [(0, 0), (8, 8)]
   \<and> writes (snd (copy_blocks bumpy_child 10 0 2 4)) = [(0, 0, 4), (8, 8, 1), (9, 9, 1)]
   \<and> list_all (\<lambda>(off, dst). dst = off) (seeks (snd (copy_blocks bumpy_child 10 0 2 4)))
   \<and> list_all (\<lambda>(src, dst, len). dst = src) (writes (snd (copy_blocks bumpy_child 10 0 2 4)))"
proof -
  have hyps: "(0::int) \<le> 0" "(0::int) < 2" "(0::int) < 4" "(0::int) \<le> 10"
    "(10::int) + 2 * 4 < 2 ^ 63"
    by simp_all
  have run: "seeks (snd (copy_blocks bumpy_child 10 0 2 4)) = [(0, 0), (8, 8)]
      \<and> writes (snd (copy_blocks bumpy_child 10 0 2 4)) = [(0, 0, 4), (8, 8, 1), (9, 9, 1)]"
    by code_simp
  note inst = offsets_aligned [OF hyps, of bumpy_child]
  have "list_all (\<lambda>(off, dst). dst = off) (seeks (snd (copy_blocks bumpy_child 10 0 2 4)))"
    "list_all (\<lambda>(src, dst, len). dst = src) (writes (snd (copy_blocks bumpy_child 10 0 2 4)))"
    using inst by (simp_all add: list_all_iff)
  with hyps run show ?thesis by simp
qed

text \<open>Claim C9 as stated fails where the additions wrap: with a block size of
  \<open>2^62 - 1\<close>, five workers and a file of 10 bytes, worker 0 comes back to source offset
  6 after its first pass, while its destination offset is \<open>2^62 - 5\<close>, and writes four
  bytes there.\<close>

theorem offsets_aligned_counterexample:
  "(6, 2 ^ 62 - 5, 4) \<in> set (writes (snd (copy_blocks plain_child 10 0 5 (2 ^ 62 - 1))))"
  by code_simp

subsection \<open>C10: a negative worker count\<close>

text \<open>
  Claim C10. When the option loop ends with a negative \<^verbatim>\<open>num_processes\<close> (a negative
  value given with \<^verbatim>\<open>-p\<close>), without \<^verbatim>\<open>-o\<close> and with both operands present, and the source
  is not empty and the destination can be created: no default replaces the value, the
  destination is created, no worker is forked, the destination keeps length 0, the copy
  returns a result with the measured elapsed time, and \<^verbatim>\<open>main\<close> returns 0.
\<close>

theorem negative_worker_count:
  assumes "parse_opts wd (opts a) \<lparr>procs = 0, shift = 0, optimize = False, block = None\<rparr> = Done st"
    and "procs st < 0" "\<not> optimize st" "2 \<le> operands a"
    and "stat_size (run wd 0) = Some fs" "0 < fs" "creat_ok (run wd 0)"
  shows "ended (main wd a) = Done 0
       \<and> (\<exists>out r. copied (main wd a) = [out] \<and> children out = [] \<and> dest_length out = Some 0
             \<and> parent out = Done r \<and> num_processes r = procs st
             \<and> elapsed_time r = elapsed (start_time (run wd 0)) (end_time (run wd 0)))"
proof -
  have inv: "shift st \<noteq> 0 \<longrightarrow> block st \<noteq> None"
    using parse_opts_block [OF assms(1)] by simp
  obtain st1 b where rs: "resolve wd st = Done st1" "procs st1 = procs st" "block st1 = Some b"
    "optimize st1 = optimize st"
    using resolve_given [of st wd] assms(2) inv by auto
  define slot where "slot = \<lparr>num_processes = 0, block_size = 0, elapsed_time = 0, shift_value = 0\<rparr>"
  have pc: "perform_copy (run wd 0) (procs st1) b slot =
     \<lparr>parent = Done (slot\<lparr>num_processes := procs st1, block_size := b,
                       elapsed_time := elapsed (start_time (run wd 0)) (end_time (run wd 0))\<rparr>),
      children = [], dest_length = Some 0\<rparr>"
    using assms(2) rs(2) by (intro perform_copy_no_workers [OF assms(5,7)]) simp
  have "main wd a = \<lparr>ended = Done 0,
      copied = [perform_copy (run wd 0) (procs st1) b slot], reported = None\<rparr>"
    using assms(1,3,4) rs pc by (simp add: main_def Let_def slot_def)
  then show ?thesis using pc rs(2) by simp
qed

text \<open>The theorem for the command line \<^verbatim>\<open>-p -3 source destination\<close> on a source of 10
  bytes.\<close>

theorem negative_worker_count_witness:
  "parse_opts calm_world (opts \<lparr>opts = [Opt_p (- 3)], operands = 2\<rparr>)
       \<lparr>procs = 0, shift = 0, optimize = False, block = None\<rparr>
     = Done \<lparr>procs = - 3, shift = 0, optimize = False, block = None\<rparr>
   \<and> stat_size (run calm_world 0) = Some 10 \<and> creat_ok (run calm_world 0)
   \<and> main calm_world \<lparr>opts = [Opt_p (- 3)], operands = 2\<rparr>
       = \<lparr>ended = Done 0,
          copied = [\<lparr>parent = Done \<lparr>num_processes = - 3, block_size = 1048576,
                                    elapsed_time = 1 / 2, shift_value = 0\<rparr>,
                     children = [], dest_length = Some 0\<rparr>],
          reported = None\<rparr>"
proof -
  have parsed: "parse_opts calm_world (opts \<lparr>opts = [Opt_p (- 3)], operands = 2\<rparr>)
       \<lparr>procs = 0, shift = 0, optimize = False, block = None\<rparr>
     = Done \<lparr>procs = - 3, shift = 0, optimize = False, block = None\<rparr>"
    by simp
  have env: "stat_size (run calm_world 0) = Some 10" "creat_ok (run calm_world 0)"
    by (simp_all add: calm_world_def calm_run_def)
  have rest: "procs \<lparr>procs = - 3, shift = 0, optimize = False, block = None\<rparr> < 0"
    "\<not> optimize \<lparr>procs = - 3, shift = 0, optimize = False, block = None\<rparr>"
    "2 \<le> operands \<lparr>opts = [Opt_p (- 3)], operands = 2\<rparr>" "(0::int) < 10"
    by simp_all
  note inst = negative_worker_count [OF parsed rest(1,2,3) env(1) rest(4) env(2)]
  have run: "main calm_world \<lparr>opts = [Opt_p (- 3)], operands = 2\<rparr>
       = \<lparr>ended = Done 0,
          copied = [\<lparr>parent = Done \<lparr>num_processes = - 3, block_size = 1048576,
                                    elapsed_time = 1 / 2, shift_value = 0\<rparr>,
                     children = [], dest_length = Some 0\<rparr>],
          reported = None\<rparr>"
    by code_simp
  show ?thesis using inst parsed env run by simp
qed


end
